theory Spec2Isabelle
  imports Complex_Main
begin

section \<open>The Simon Says game session (GameContext.tsx, SoundContext.tsx)\<close>

text \<open>
  The game provider keeps its session in React state cells and drives the reveal of the
  sequence with browser timers. The embedding below keeps the cells as the fields of a
  record, runs every handler as one atomic update of that record (a handler reads the
  cells of the render it was created in and writes them when it returns), and keeps the
  pending timers, with their due times, in the record too. JavaScript numbers that only
  ever hold integers (tile indices, scores, milliseconds) are \<open>int\<close>.
\<close>

subsection \<open>Difficulty settings and the multiplier\<close>

datatype Difficulty = easy | medium | hard

datatype GameState = Idle | ShowingSequence | WaitingForInput | GameOver

record DifficultySettings =
  flashDelay :: int
  pauseDelay :: int
  baseMultiplier :: int

text \<open>\<^verbatim>\<open>getDifficultySettings\<close>: the \<^verbatim>\<open>default\<close> branch of the switch cannot be taken
  by a value of the type \<^verbatim>\<open>Difficulty\<close>.\<close>

definition getDifficultySettings :: "Difficulty \<Rightarrow> DifficultySettings" where
  "getDifficultySettings d =
     (case d of
        easy \<Rightarrow> \<lparr>flashDelay = 400, pauseDelay = 400, baseMultiplier = 1\<rparr>
      | medium \<Rightarrow> \<lparr>flashDelay = 300, pauseDelay = 300, baseMultiplier = 2\<rparr>
      | hard \<Rightarrow> \<lparr>flashDelay = 200, pauseDelay = 200, baseMultiplier = 3\<rparr>)"

definition calculateMultiplier :: "int \<Rightarrow> int \<Rightarrow> int" where
  "calculateMultiplier sequenceLength base =
     (let lengthMultiplier =
        (if sequenceLength \<ge> 20 then 6
         else if sequenceLength \<ge> 16 then 5
         else if sequenceLength \<ge> 13 then 4
         else if sequenceLength \<ge> 10 then 3
         else if sequenceLength \<ge> 5 then 2
         else 1)
      in base * lengthMultiplier)"

text \<open>The table of the specification, written from its words, to compare with the code.\<close>

definition spec_lengthMultiplier :: "int \<Rightarrow> int" where
  "spec_lengthMultiplier sequenceLength =
     (if sequenceLength < 5 then 1
      else if 5 \<le> sequenceLength \<and> sequenceLength < 10 then 2
      else if 10 \<le> sequenceLength \<and> sequenceLength < 13 then 3
      else if 13 \<le> sequenceLength \<and> sequenceLength < 16 then 4
      else if 16 \<le> sequenceLength \<and> sequenceLength < 20 then 5
      else 6)"

text \<open>\<^verbatim>\<open>Math.round\<close> rounds half up: the floor of the argument plus one half.\<close>

definition Math_round :: "rat \<Rightarrow> int" where
  "Math_round x = \<lfloor>x + 1 / 2\<rfloor>"


subsection \<open>What the provider reads from the other contexts\<close>

text \<open>
  \<^verbatim>\<open>useAuth\<close>, \<^verbatim>\<open>useTheme\<close> and the sound provider's own cells are not written by the
  game provider; every handler receives them as an argument.
\<close>

record env =
  user_id :: "string option"
  session :: bool
  currentTheme_id :: string
  sfxEnabled :: bool
  audioContext :: bool

text \<open>The guard \<^verbatim>\<open>if (!user?.id || !session) return\<close>: the id of the signed-in user, if any
  (an empty string is falsy).\<close>

definition signed_in :: "env \<Rightarrow> string option" where
  "signed_in e =
     (case user_id e of
        None \<Rightarrow> None
      | Some uid \<Rightarrow> if uid = [] \<or> \<not> session e then None else Some uid)"

subsection \<open>Session state, timers and requests\<close>

datatype error = TypeError

text \<open>
  The requests sent to the database and the tones started, in the order they are issued:
  a row inserted into \<^verbatim>\<open>games\<close> (user, score, difficulty, theme, streak), a row upserted
  into \<^verbatim>\<open>high_scores\<close> (user, score, difficulty), an oscillator started at a frequency.
\<close>

datatype effect =
    GamesInsert string int Difficulty string int
  | HighScoresUpsert string int Difficulty
  | Tone rat

text \<open>
  The callbacks handed to \<^verbatim>\<open>window.setTimeout\<close>, each with the values its closure holds:
  \<^item> \<open>StartTick d\<close>: the 100 ms callback of \<^verbatim>\<open>startGame\<close>, which draws the first tile and
    calls \<^verbatim>\<open>playSequence\<close> of the render that started the game (difficulty \<open>d\<close>);
  \<^item> \<open>FlashOn tile last fd\<close>: the outer callback of \<^verbatim>\<open>playSequence\<close> for one tile, where
    \<open>last\<close> is \<^verbatim>\<open>i === sequence.length - 1\<close> and \<open>fd\<close> the flash delay;
  \<^item> \<open>FlashOff last\<close>: its inner callback;
  \<^item> \<open>InputFlashOff\<close>: the callback of \<^verbatim>\<open>handleTileClick\<close> that darkens the clicked tile;
  \<^item> \<open>NextSequence seq d\<close>: the 1000 ms callback that calls \<^verbatim>\<open>addToSequence\<close> of the
    render in which the round was completed (sequence \<open>seq\<close>, difficulty \<open>d\<close>).
\<close>

datatype callback =
    StartTick Difficulty
  | FlashOn int bool int
  | FlashOff bool
  | InputFlashOff
  | NextSequence "int list" Difficulty

text \<open>A pending timer. \<open>tracked\<close> says that its id was pushed on
  \<^verbatim>\<open>sequenceTimeouts.current\<close>, so that \<^verbatim>\<open>cleanup\<close> cancels it.\<close>

record timer =
  due :: int
  tracked :: bool
  callback :: callback

record game =
  state :: GameState
  sequence :: "int list"
  userSequence :: "int list"
  score :: int
  highScore :: int
  activeTile :: "int option"
  difficulty :: Difficulty
  multiplier :: int
  timers :: "timer list"
  now :: int
  effects :: "effect list"

definition initial :: game where
  "initial = \<lparr>state = Idle, sequence = [], userSequence = [], score = 0, highScore = 0,
     activeTile = None, difficulty = easy, multiplier = 1, timers = [], now = 0,
     effects = []\<rparr>"

text \<open>\<^verbatim>\<open>xs[i]\<close> in JavaScript: \<^verbatim>\<open>undefined\<close> outside the array.\<close>

definition index :: "'a list \<Rightarrow> int \<Rightarrow> 'a option" where
  "index xs i = (if 0 \<le> i \<and> i < int (length xs) then Some (xs ! nat i) else None)"

definition setTimeout :: "callback \<Rightarrow> int \<Rightarrow> bool \<Rightarrow> game \<Rightarrow> game" where
  "setTimeout cb delay pushed s =
     s\<lparr>timers := timers s @ [\<lparr>due = now s + delay, tracked = pushed, callback = cb\<rparr>]\<rparr>"

definition cleanup :: "game \<Rightarrow> game" where
  "cleanup s = s\<lparr>timers := filter (\<lambda>t. \<not> tracked t) (timers s)\<rparr>"

subsection \<open>The sound provider\<close>

definition TILE_FREQUENCIES :: "rat list" where
  "TILE_FREQUENCIES =
     [26163 / 100, 29366 / 100, 32963 / 100, 34923 / 100, 392, 440, 49388 / 100,
      52325 / 100, 58733 / 100]"

text \<open>
  \<^verbatim>\<open>playTone\<close> passes the frequency to \<^verbatim>\<open>AudioParam.setValueAtTime\<close>, whose first
  parameter is a Web IDL \<^verbatim>\<open>float\<close>: \<^verbatim>\<open>undefined\<close> converts to NaN, which is not a
  finite value, and the call throws a \<^verbatim>\<open>TypeError\<close>. Nothing in \<^verbatim>\<open>playTone\<close>,
  \<^verbatim>\<open>playTileSound\<close> or their callers catches it.
\<close>

definition playTone :: "env \<Rightarrow> rat option \<Rightarrow> game \<Rightarrow> error + game" where
  "playTone e frequency s =
     (if \<not> sfxEnabled e \<or> \<not> audioContext e then Inr s
      else case frequency of
             None \<Rightarrow> Inl TypeError
           | Some f \<Rightarrow> Inr (s\<lparr>effects := effects s @ [Tone f]\<rparr>))"

definition playTileSound :: "env \<Rightarrow> int \<Rightarrow> game \<Rightarrow> error + game" where
  "playTileSound e tileIndex s =
     (if \<not> sfxEnabled e then Inr s
      else playTone e (index TILE_FREQUENCIES tileIndex) s)"

subsection \<open>The game provider\<close>

definition handleGameOver :: "env \<Rightarrow> game \<Rightarrow> game" where
  "handleGameOver e s =
     (let s1 = (cleanup s)\<lparr>state := GameOver\<rparr> in
      case signed_in e of
        None \<Rightarrow> s1
      | Some uid \<Rightarrow>
          let themeId = (if currentTheme_id e = ''default''
                         then ''00000000-0000-0000-0000-000000000000''
                         else currentTheme_id e)
          in s1\<lparr>effects := effects s1 @
                  [GamesInsert uid (score s) (difficulty s) themeId
                     (int (length (sequence s)) - 1)]\<rparr>)"

definition saveHighScore :: "env \<Rightarrow> int \<Rightarrow> game \<Rightarrow> game" where
  "saveHighScore e newScore s =
     (case signed_in e of
        None \<Rightarrow> s
      | Some uid \<Rightarrow> s\<lparr>effects := effects s @ [HighScoresUpsert uid newScore (difficulty s)]\<rparr>)"

definition startGame :: "game \<Rightarrow> game" where
  "startGame s =
     setTimeout (StartTick (difficulty s)) 100 False
       ((cleanup s)\<lparr>state := Idle, sequence := [], userSequence := [], score := 0,
          multiplier := baseMultiplier (getDifficultySettings (difficulty s)),
          activeTile := None\<rparr>)"

definition stopGame :: "env \<Rightarrow> game \<Rightarrow> game" where
  "stopGame e s = handleGameOver e (cleanup s)"

definition resetGame :: "game \<Rightarrow> game" where
  "resetGame s =
     (cleanup s)\<lparr>sequence := [], userSequence := [], score := 0,
        multiplier := baseMultiplier (getDifficultySettings (difficulty s)),
        activeTile := None, state := Idle\<rparr>"

text \<open>\<^verbatim>\<open>setDifficulty\<close> is the setter of the \<^verbatim>\<open>useState\<close> cell, handed out as it is.\<close>

definition setDifficulty :: "Difficulty \<Rightarrow> game \<Rightarrow> game" where
  "setDifficulty d s = s\<lparr>difficulty := d\<rparr>"

text \<open>The buttons of \<^verbatim>\<open>DifficultySelector\<close> call \<^verbatim>\<open>setDifficulty\<close> and carry
  \<^verbatim>\<open>disabled={state !== GameState.Idle}\<close>: a disabled button sends no click.\<close>

definition DifficultySelector_click :: "Difficulty \<Rightarrow> game \<Rightarrow> game" where
  "DifficultySelector_click d s = (if state s \<noteq> Idle then s else setDifficulty d s)"

text \<open>\<^verbatim>\<open>fetchHighScore\<close>, when its query answers: \<^verbatim>\<open>setHighScore(data?.score ?? 0)\<close>.\<close>

definition fetchedHighScore :: "int \<Rightarrow> game \<Rightarrow> game" where
  "fetchedHighScore v s = s\<lparr>highScore := v\<rparr>"

text \<open>\<^verbatim>\<open>playSequence\<close>: one tracked timer per tile, tile \<open>i\<close> due after
  \<open>i * (flashDelay + pauseDelay)\<close>.\<close>

definition playSequence :: "Difficulty \<Rightarrow> int list \<Rightarrow> game \<Rightarrow> game" where
  "playSequence d seq s =
     (let fd = flashDelay (getDifficultySettings d);
          pd = pauseDelay (getDifficultySettings d)
      in s\<lparr>state := ShowingSequence,
           timers := timers s @
             map (\<lambda>(i, tileIndex).
                    \<lparr>due = now s + int i * (fd + pd), tracked = True,
                     callback = FlashOn tileIndex (int i = int (length seq) - 1) fd\<rparr>)
                 (enumerate 0 seq)\<rparr>)"

text \<open>\<^verbatim>\<open>addToSequence\<close>, with the tile drawn by \<^verbatim>\<open>Math.floor(Math.random() * 9)\<close> as
  an argument.\<close>

definition addToSequence :: "Difficulty \<Rightarrow> int list \<Rightarrow> int \<Rightarrow> game \<Rightarrow> game" where
  "addToSequence d seq newTile s =
     (let newSequence = seq @ [newTile]
      in playSequence d newSequence (s\<lparr>sequence := newSequence, userSequence := []\<rparr>))"

text \<open>
  \<^verbatim>\<open>handleTileClick\<close>. A call that throws is \<open>Inl\<close>, with the cells as the updates made
  before the throw leave them.
\<close>

definition handleTileClick :: "env \<Rightarrow> int \<Rightarrow> game \<Rightarrow> error \<times> game + game" where
  "handleTileClick e tileIndex s =
     (if state s \<noteq> WaitingForInput then Inr s
      else
        let newUserSequence = userSequence s @ [tileIndex];
            fd = flashDelay (getDifficultySettings (difficulty s));
            s1 = s\<lparr>userSequence := newUserSequence, activeTile := Some tileIndex\<rparr>
        in case playTileSound e tileIndex s1 of
             Inl err \<Rightarrow> Inl (err, s1)
           | Inr s2 \<Rightarrow>
               let s3 = setTimeout InputFlashOff fd True s2 in
               if Some tileIndex \<noteq> index (sequence s) (int (length (userSequence s)))
               then Inr (handleGameOver e (cleanup s3))
               else if length newUserSequence = length (sequence s)
               then
                 let s4 = cleanup s3;
                     newMultiplier = calculateMultiplier (int (length (sequence s)))
                                       (baseMultiplier (getDifficultySettings (difficulty s)));
                     basePoints = 1;
                     newScore = score s + Math_round (of_int (basePoints * newMultiplier));
                     s5 = s4\<lparr>multiplier := newMultiplier, score := newScore\<rparr>;
                     s6 = (if newScore > highScore s
                           then saveHighScore e newScore (s5\<lparr>highScore := newScore\<rparr>)
                           else s5)
                 in Inr (setTimeout (NextSequence (sequence s) (difficulty s)) 1000 True s6)
               else Inr s3)"

subsection \<open>The timers\<close>

text \<open>What a callback does when its timer fires; \<open>r\<close> is the tile that
  \<^verbatim>\<open>Math.floor(Math.random() * 9)\<close> draws, for the two callbacks that draw one. An
  exception thrown inside a callback ends that callback only.\<close>

fun fire :: "env \<Rightarrow> int \<Rightarrow> callback \<Rightarrow> game \<Rightarrow> game" where
  "fire e r (StartTick d) s = playSequence d [r] (s\<lparr>sequence := [r]\<rparr>)"
| "fire e r (FlashOn tileIndex isLast fd) s =
     (let s1 = s\<lparr>activeTile := Some tileIndex\<rparr>
      in case playTileSound e tileIndex s1 of
           Inl err \<Rightarrow> s1
         | Inr s2 \<Rightarrow> setTimeout (FlashOff isLast) fd True s2)"
| "fire e r (FlashOff isLast) s =
     (let s1 = s\<lparr>activeTile := None\<rparr>
      in if isLast then s1\<lparr>state := WaitingForInput\<rparr> else s1)"
| "fire e r InputFlashOff s = s\<lparr>activeTile := None\<rparr>"
| "fire e r (NextSequence seq d) s = addToSequence d seq r s"

text \<open>The browser runs the pending timer that is due first, and of two due at the same
  time the one set first.\<close>

fun earliest :: "timer list \<Rightarrow> (timer \<times> timer list) option" where
  "earliest [] = None"
| "earliest (t # ts) =
     (case earliest ts of
        None \<Rightarrow> Some (t, [])
      | Some (u, rest) \<Rightarrow> if due t \<le> due u then Some (t, ts) else Some (u, t # rest))"

definition fire_next :: "env \<Rightarrow> int \<Rightarrow> game \<Rightarrow> game" where
  "fire_next e r s =
     (case earliest (timers s) of
        None \<Rightarrow> s
      | Some (t, rest) \<Rightarrow> fire e r (callback t) (s\<lparr>timers := rest, now := max (now s) (due t)\<rparr>))"

subsection \<open>The session as a transition system\<close>

text \<open>
  What can happen to a session: \<^verbatim>\<open>handleTileClick\<close> is called with a tile index (any
  number: \<^verbatim>\<open>GameGrid\<close> and \<^verbatim>\<open>handleKeyPress\<close> submit 0 to 8, the provider's interface
  takes every number), one of the provider's other commands is called, a high score arrives
  from the database, time passes, or the pending timer that is due first fires (a timer may
  run late, but never before one that is due earlier).
\<close>

datatype event =
    Click int
  | Start
  | Stop
  | Reset
  | SetDifficulty Difficulty
  | HighScoreFetched int
  | Elapse int
  | Timeout int

definition after :: "error \<times> game + game \<Rightarrow> game" where
  "after res = (case res of Inl (err, s) \<Rightarrow> s | Inr s \<Rightarrow> s)"

fun enabled :: "event \<Rightarrow> game \<Rightarrow> bool" where
  "enabled (Elapse dt) s = (0 \<le> dt)"
| "enabled (Timeout r) s = (0 \<le> r \<and> r < 9 \<and> timers s \<noteq> [])"
| "enabled ev s = True"

fun apply_event :: "env \<Rightarrow> event \<Rightarrow> game \<Rightarrow> game" where
  "apply_event e (Click i) s = after (handleTileClick e i s)"
| "apply_event e Start s = startGame s"
| "apply_event e Stop s = stopGame e s"
| "apply_event e Reset s = resetGame s"
| "apply_event e (SetDifficulty d) s = setDifficulty d s"
| "apply_event e (HighScoreFetched v) s = fetchedHighScore v s"
| "apply_event e (Elapse dt) s = s\<lparr>now := now s + dt\<rparr>"
| "apply_event e (Timeout r) s = fire_next e r s"

inductive reachable :: "game \<Rightarrow> bool" where
  start: "reachable initial"
| step: "reachable s \<Longrightarrow> enabled ev s \<Longrightarrow> reachable (apply_event e ev s)"

text \<open>The handler of the event returns: of all the handlers only \<^verbatim>\<open>handleTileClick\<close> can
  throw. \<open>reachable_returning\<close> are the states reached while every call returned.\<close>

fun returns :: "env \<Rightarrow> event \<Rightarrow> game \<Rightarrow> bool" where
  "returns e (Click i) s = (case handleTileClick e i s of Inl x \<Rightarrow> False | Inr s' \<Rightarrow> True)"
| "returns e ev s = True"

inductive reachable_returning :: "game \<Rightarrow> bool" where
  start: "reachable_returning initial"
| step: "reachable_returning s \<Longrightarrow> enabled ev s \<Longrightarrow> returns e ev s \<Longrightarrow>
           reachable_returning (apply_event e ev s)"

text \<open>A list of events, run from a state; \<open>None\<close> when one of them cannot happen (for
  \<open>run_returning\<close>: or throws).\<close>

fun run :: "env \<Rightarrow> event list \<Rightarrow> game \<Rightarrow> game option" where
  "run e [] s = Some s"
| "run e (ev # evs) s = (if enabled ev s then run e evs (apply_event e ev s) else None)"

fun run_returning :: "env \<Rightarrow> event list \<Rightarrow> game \<Rightarrow> game option" where
  "run_returning e [] s = Some s"
| "run_returning e (ev # evs) s =
     (if enabled ev s \<and> returns e ev s then run_returning e evs (apply_event e ev s) else None)"

text \<open>The rows among the requests: the score and difficulty of each \<^verbatim>\<open>high_scores\<close>
  upsert; the score, difficulty and streak of each \<^verbatim>\<open>games\<close> insert.\<close>

fun upserts :: "effect list \<Rightarrow> (int \<times> Difficulty) list" where
  "upserts [] = []"
| "upserts (HighScoresUpsert uid v d # es) = (v, d) # upserts es"
| "upserts (ef # es) = upserts es"

fun games_rows :: "effect list \<Rightarrow> (int \<times> Difficulty \<times> int) list" where
  "games_rows [] = []"
| "games_rows (GamesInsert uid v d th k # es) = (v, d, k) # games_rows es"
| "games_rows (ef # es) = games_rows es"

subsection \<open>A session of consecutive successful rounds\<close>

text \<open>
  The player clicks the given tiles one after the other; \<open>win_round\<close> clicks the whole
  current sequence. \<open>reveal\<close> lets the pending timers run until the next reveal pass is
  over: the timer that draws the new tile \<open>r\<close>, then the two timers of each of the
  \<open>length (sequence s) + 1\<close> tiles. \<open>rounds\<close> is \<^verbatim>\<open>startGame\<close> followed by one
  successful round for each drawn tile.
\<close>

definition clicks :: "env \<Rightarrow> int list \<Rightarrow> game \<Rightarrow> game" where
  "clicks e tiles s = foldl (\<lambda>s' i. after (handleTileClick e i s')) s tiles"

definition win_round :: "env \<Rightarrow> game \<Rightarrow> game" where
  "win_round e s = clicks e (sequence s) s"

definition reveal :: "env \<Rightarrow> int \<Rightarrow> game \<Rightarrow> game" where
  "reveal e r s = (fire_next e r ^^ (2 * length (sequence s) + 3)) s"

definition rounds :: "env \<Rightarrow> int list \<Rightarrow> game \<Rightarrow> game" where
  "rounds e rs s = foldl (\<lambda>s' r. win_round e (reveal e r s')) (startGame s) rs"

subsection \<open>Example players and notions used in the statements\<close>

definition player :: env where
  "player = \<lparr>user_id = Some ''ada'', session = True, currentTheme_id = ''default'',
      sfxEnabled = True, audioContext = True\<rparr>"

definition guest :: env where
  "guest = \<lparr>user_id = None, session = False, currentTheme_id = ''default'',
      sfxEnabled = True, audioContext = True\<rparr>"

text \<open>States of an example session on Easy: the first reveal under way, the first round
  awaiting its input, the third round (sequence 2, 7, 5) with two tiles entered, and the
  second round with one tile entered, reached event by event.\<close>

definition first_reveal :: game where
  "first_reveal = fire_next player 2 (startGame initial)"

definition first_round :: game where
  "first_round = reveal player 2 (startGame initial)"

definition third_round :: game where
  "third_round = clicks player [2, 7] (reveal player 5 (rounds player [2, 7] initial))"

definition guest_round :: game where
  "guest_round = reveal guest 2 (startGame initial)"

text \<open>A session on Hard with a known high score of 10, three rounds completed (score 9),
  and the fourth round (sequence 2, 7, 5, 0) with all but its last tile entered.\<close>

definition hard_fourth :: game where
  "hard_fourth =
     \<lparr>state = WaitingForInput, sequence = [2, 7, 5, 0], userSequence = [2, 7, 5], score = 9,
      highScore = 10, activeTile = Some 5, difficulty = hard, multiplier = 3,
      timers =
        [\<lparr>due = 6500, tracked = True, callback = InputFlashOff\<rparr>,
         \<lparr>due = 6500, tracked = True, callback = InputFlashOff\<rparr>,
         \<lparr>due = 6500, tracked = True, callback = InputFlashOff\<rparr>],
      now = 6300, effects = []\<rparr>"

definition second_round_events :: "event list" where
  "second_round_events =
     [Start, Timeout 2, Timeout 2, Timeout 2, Click 2,
      Timeout 7, Timeout 7, Timeout 7, Timeout 7, Timeout 7, Click 2]"

definition second_round :: game where
  "second_round = foldl (\<lambda>s ev. apply_event player ev s) initial second_round_events"



definition thrown_click_events :: "event list" where
  "thrown_click_events = [Start, Timeout 2, Timeout 2, Timeout 2, Click 9]"

definition thrown_click :: game where
  "thrown_click = foldl (\<lambda>s ev. apply_event player ev s) initial thrown_click_events"



text \<open>The tone that \<^verbatim>\<open>playTileSound\<close> starts for a tile, if any.\<close>

definition tone :: "env \<Rightarrow> int \<Rightarrow> effect list" where
  "tone e i =
     (if sfxEnabled e \<and> audioContext e
      then (case index TILE_FREQUENCIES i of None \<Rightarrow> [] | Some f \<Rightarrow> [Tone f])
      else [])"

text \<open>\<^verbatim>\<open>playTileSound\<close> returns for this tile: the tile has a frequency, or no oscillator
  is started at all.\<close>

definition audible :: "env \<Rightarrow> int \<Rightarrow> bool" where
  "audible e i = (0 \<le> i \<and> i < 9 \<or> \<not> sfxEnabled e \<or> \<not> audioContext e)"

definition period :: "Difficulty \<Rightarrow> int" where
  "period d = flashDelay (getDifficultySettings d) + pauseDelay (getDifficultySettings d)"

text \<open>The timers of \<^verbatim>\<open>playSequence\<close> for the tiles \<open>xs\<close> at the positions from \<open>k\<close> on, in a
  sequence of length \<open>n\<close> whose reveal began at \<open>t0\<close>.\<close>

definition flashes :: "int \<Rightarrow> Difficulty \<Rightarrow> nat \<Rightarrow> nat \<Rightarrow> int list \<Rightarrow> timer list" where
  "flashes t0 d n k xs =
     map (\<lambda>(i, tileIndex).
            \<lparr>due = t0 + int i * period d, tracked = True,
             callback = FlashOn tileIndex (int i = int n - 1)
                          (flashDelay (getDifficultySettings d))\<rparr>)
         (enumerate k xs)"

subsection \<open>The invariants of the session\<close>

fun is_start :: "callback \<Rightarrow> bool" where
  "is_start (StartTick d) = True"
| "is_start cb = False"

fun is_off :: "callback \<Rightarrow> bool" where
  "is_off (FlashOff l) = True"
| "is_off cb = False"

fun slow_flash :: "callback \<Rightarrow> bool" where
  "slow_flash (FlashOn x l fd) = (100 < fd)"
| "slow_flash cb = True"

fun tiles_in_range :: "callback \<Rightarrow> bool" where
  "tiles_in_range (FlashOn x l fd) = (0 \<le> x \<and> x < 9)"
| "tiles_in_range (NextSequence q d) = (\<forall>x\<in>set q. 0 \<le> x \<and> x < 9)"
| "tiles_in_range cb = True"

fun next_of :: "callback \<Rightarrow> int list option" where
  "next_of (NextSequence q d) = Some q"
| "next_of cb = None"

text \<open>Only the timers of \<^verbatim>\<open>startGame\<close> are untracked, they are due within 100 ms,
  every flash lasts longer than that, and the tiles held by a callback are tiles of the
  grid.\<close>

definition timer_ok :: "int \<Rightarrow> timer \<Rightarrow> bool" where
  "timer_ok t u =
     (tracked u = (\<not> is_start (callback u))
    \<and> (is_start (callback u) \<longrightarrow> due u \<le> t + 100)
    \<and> slow_flash (callback u)
    \<and> tiles_in_range (callback u))"

text \<open>A pending start is due before every pending end of a flash.\<close>

definition starts_first :: "timer list \<Rightarrow> bool" where
  "starts_first ts =
     (\<forall>u\<in>set ts. \<forall>v\<in>set ts.
        is_start (callback u) \<longrightarrow> is_off (callback v) \<longrightarrow> due u < due v)"

text \<open>What holds of the timers in every reachable state. While a start is pending no input
  has been entered and none is accepted; the 1000 ms timer of a completed round is pending
  alone, holds the current sequence, and the input is as long as the sequence.\<close>

definition timers_inv :: "game \<Rightarrow> bool" where
  "timers_inv s =
     ((\<forall>u\<in>set (timers s). timer_ok (now s) u)
    \<and> starts_first (timers s)
    \<and> ((\<exists>u\<in>set (timers s). is_start (callback u)) \<longrightarrow>
          userSequence s = [] \<and> state s \<noteq> WaitingForInput)
    \<and> (state s = Idle \<longrightarrow> score s = 0 \<and> sequence s = [])
    \<and> (\<forall>x\<in>set (sequence s). 0 \<le> x \<and> x < 9)
    \<and> (\<forall>u\<in>set (timers s). \<forall>q. next_of (callback u) = Some q \<longrightarrow>
          timers s = [u] \<and> q = sequence s \<and> state s = WaitingForInput
          \<and> length (sequence s) \<le> length (userSequence s)))"

text \<open>The input is a prefix of the sequence, or the session is over with no timer left.\<close>

definition prefix_ok :: "game \<Rightarrow> bool" where
  "prefix_ok s =
     (take (length (userSequence s)) (sequence s) \<noteq> userSequence s \<longrightarrow>
        state s = GameOver \<and> timers s = [])"

section \<open>Properties\<close>

lemma Math_round_of_int: "Math_round (of_int n) = n"
  unfolding Math_round_def by linarith

subsection \<open>Tones and timers\<close>

lemma index_TILE: "0 \<le> i \<Longrightarrow> i < 9 \<Longrightarrow> index TILE_FREQUENCIES i \<noteq> None"
  by (simp add: index_def TILE_FREQUENCIES_def)

lemma playTileSound_ok:
  "audible e i \<Longrightarrow> playTileSound e i s = Inr (s\<lparr>effects := effects s @ tone e i\<rparr>)"
  using index_TILE[of i]
  by (auto simp: audible_def playTileSound_def playTone_def tone_def split: option.splits)

lemma playSequence_flashes:
  "playSequence d seq s =
     s\<lparr>state := ShowingSequence, timers := timers s @ flashes (now s) d (length seq) 0 seq\<rparr>"
  by (simp add: playSequence_def flashes_def period_def Let_def)

lemma delays_pos:
  "0 < flashDelay (getDifficultySettings d)" "0 < pauseDelay (getDifficultySettings d)"
  "100 < flashDelay (getDifficultySettings d)"
  by (cases d; simp add: getDifficultySettings_def)+

lemma period_pos: "flashDelay (getDifficultySettings d) < period d" "0 < period d"
  using delays_pos[of d] by (simp_all add: period_def)

lemma flashes_Nil [simp]: "flashes t0 d n k [] = []"
  by (simp add: flashes_def)

lemma flashes_Cons:
  "flashes t0 d n k (x # xs) =
     \<lparr>due = t0 + int k * period d, tracked = True,
      callback = FlashOn x (int k = int n - 1) (flashDelay (getDifficultySettings d))\<rparr>
     # flashes t0 d n (Suc k) xs"
  by (simp add: flashes_def)

lemma flashes_due: "u \<in> set (flashes t0 d n k xs) \<Longrightarrow> t0 + int k * period d \<le> due u"
proof (induction xs arbitrary: k)
  case Nil
  then show ?case by simp
next
  case (Cons x xs)
  have "int k * period d \<le> int (Suc k) * period d"
    using period_pos(2)[of d] by (simp add: algebra_simps)
  with Cons show ?case by (fastforce simp: flashes_Cons)
qed

lemma earliest_None: "earliest ts = None \<longleftrightarrow> ts = []"
  by (induction ts) (auto split: option.splits)

lemma earliest_set:
  "earliest ts = Some (u, rest) \<Longrightarrow> set ts = insert u (set rest) \<and> (\<forall>v\<in>set ts. due u \<le> due v)"
proof (induction ts arbitrary: u rest)
  case Nil
  then show ?case by simp
next
  case (Cons t ts)
  show ?case
  proof (cases "earliest ts")
    case None
    then have "ts = []" by (simp add: earliest_None)
    with Cons.prems show ?thesis by simp
  next
    case (Some p)
    obtain w r where p: "p = (w, r)" by (cases p)
    from Cons.IH[of w r] Some p
    have ih: "set ts = insert w (set r)" "\<forall>v\<in>set ts. due w \<le> due v" by simp_all
    show ?thesis
    proof (cases "due t \<le> due w")
      case True
      with Cons.prems Some p have "u = t" "rest = ts" by simp_all
      with ih True show ?thesis by fastforce
    next
      case False
      with Cons.prems Some p have "u = w" "rest = t # r" by simp_all
      with ih False show ?thesis by fastforce
    qed
  qed
qed

lemma earliest_head:
  assumes "\<forall>v\<in>set ts. due t \<le> due v"
  shows "earliest (t # ts) = Some (t, ts)"
proof (cases "earliest ts")
  case None
  then show ?thesis by (simp add: earliest_None)
next
  case (Some p)
  obtain w r where p: "p = (w, r)" by (cases p)
  with Some earliest_set[of ts w r] have "w \<in> set ts" by auto
  with assms have "due t \<le> due w" by simp
  with Some p show ?thesis by simp
qed

lemma earliest_last:
  assumes "\<forall>v\<in>set ts. due t < due v"
  shows "earliest (ts @ [t]) = Some (t, ts)"
  using assms by (induction ts) auto

lemma fire_next_on:
  assumes "timers s = flashes t0 d n k (x # xs)"
    and "now s \<le> t0 + int k * period d"
    and "audible e x"
  shows "fire_next e r s =
           s\<lparr>timers := flashes t0 d n (Suc k) xs @
                [\<lparr>due = t0 + int k * period d + flashDelay (getDifficultySettings d),
                  tracked = True, callback = FlashOff (int k = int n - 1)\<rparr>],
             now := t0 + int k * period d,
             activeTile := Some x,
             effects := effects s @ tone e x\<rparr>"
proof -
  let ?t = "\<lparr>due = t0 + int k * period d, tracked = True,
      callback = FlashOn x (int k = int n - 1) (flashDelay (getDifficultySettings d))\<rparr>"
  have "\<forall>v\<in>set (flashes t0 d n (Suc k) xs). due ?t \<le> due v"
    using flashes_due[of _ t0 d n "Suc k" xs] period_pos(2)[of d]
    by (fastforce simp: algebra_simps)
  then have "earliest (timers s) = Some (?t, flashes t0 d n (Suc k) xs)"
    unfolding assms(1) flashes_Cons by (rule earliest_head)
  then show ?thesis using assms(2,3)
    by (simp add: fire_next_def playTileSound_ok setTimeout_def max_def)
qed

lemma fire_next_off:
  assumes "timers s = flashes t0 d n (Suc k) xs @
                [\<lparr>due = t0 + int k * period d + flashDelay (getDifficultySettings d),
                  tracked = True, callback = FlashOff lst\<rparr>]"
    and "now s \<le> t0 + int k * period d + flashDelay (getDifficultySettings d)"
  shows "fire_next e r s =
           s\<lparr>timers := flashes t0 d n (Suc k) xs,
             now := t0 + int k * period d + flashDelay (getDifficultySettings d),
             activeTile := None,
             state := (if lst then WaitingForInput else state s)\<rparr>"
proof -
  let ?t = "\<lparr>due = t0 + int k * period d + flashDelay (getDifficultySettings d),
                  tracked = True, callback = FlashOff lst\<rparr>"
  have "\<forall>v\<in>set (flashes t0 d n (Suc k) xs). due ?t < due v"
    using flashes_due[of _ t0 d n "Suc k" xs] period_pos(1)[of d]
    by (fastforce simp: algebra_simps)
  then have "earliest (timers s) = Some (?t, flashes t0 d n (Suc k) xs)"
    unfolding assms(1) by (rule earliest_last)
  then show ?thesis using assms(2)
    by (simp add: fire_next_def max_def)
qed


lemma fire_next_pair:
  assumes "timers s = flashes t0 d n k (x # xs)"
    and "now s \<le> t0 + int k * period d"
    and "audible e x"
  shows "fire_next e r (fire_next e r s) =
           s\<lparr>timers := flashes t0 d n (Suc k) xs,
             now := t0 + int k * period d + flashDelay (getDifficultySettings d),
             activeTile := None,
             state := (if int k = int n - 1 then WaitingForInput else state s),
             effects := effects s @ tone e x\<rparr>"
proof -
  have "0 < flashDelay (getDifficultySettings d)" by (rule delays_pos)
  then show ?thesis
    by (simp add: fire_next_on[OF assms] fire_next_off[where ?t0.0 = t0 and d = d and n = n and k = k and xs = xs and lst = "int k = int n - 1"])
qed

lemma pass_even:
  assumes "timers s = flashes t0 d n k xs"
    and "now s \<le> t0 + int k * period d"
    and "k + length xs = n"
    and "\<forall>x\<in>set xs. audible e x"
    and "m < length xs"
  shows "(fire_next e r ^^ (2 * Suc m)) s =
           s\<lparr>timers := flashes t0 d n (k + Suc m) (drop (Suc m) xs),
             now := t0 + (int k + int m) * period d + flashDelay (getDifficultySettings d),
             activeTile := None,
             state := (if k + Suc m = n then WaitingForInput else state s),
             effects := effects s @ concat (map (tone e) (take (Suc m) xs))\<rparr>"
  using assms
proof (induction m arbitrary: s k xs)
  case 0
  then obtain x xs' where xs: "xs = x # xs'" by (cases xs) auto
  have "(int k = int n - 1) = (k + Suc 0 = n)" by auto
  with 0 xs show ?case
    by (simp add: fire_next_pair[where ?t0.0 = t0 and d = d and n = n and k = k and xs = xs' and x = x] numeral_2_eq_2)
next
  case (Suc m)
  then obtain x xs' where xs: "xs = x # xs'" by (cases xs) auto
  let ?s = "fire_next e r (fire_next e r s)"
  have pair: "?s = s\<lparr>timers := flashes t0 d n (Suc k) xs',
             now := t0 + int k * period d + flashDelay (getDifficultySettings d),
             activeTile := None,
             state := (if int k = int n - 1 then WaitingForInput else state s),
             effects := effects s @ tone e x\<rparr>"
    using Suc.prems xs by (intro fire_next_pair) auto
  have notlast: "int k \<noteq> int n - 1" using Suc.prems xs by auto
  have a: "timers ?s = flashes t0 d n (Suc k) xs'" by (simp add: pair)
  have b: "now ?s \<le> t0 + int (Suc k) * period d"
    using period_pos(1)[of d] by (simp add: pair algebra_simps)
  have c: "Suc k + length xs' = n" using Suc.prems xs by simp
  have d: "\<forall>x\<in>set xs'. audible e x" using Suc.prems xs by simp
  have e: "m < length xs'" using Suc.prems xs by simp
  have "(fire_next e r ^^ (2 * Suc (Suc m))) s = (fire_next e r ^^ (2 * Suc m)) ?s"
    by (simp add: funpow_swap1)
  also have "\<dots> = ?s\<lparr>timers := flashes t0 d n (Suc k + Suc m) (drop (Suc m) xs'),
             now := t0 + (int (Suc k) + int m) * period d + flashDelay (getDifficultySettings d),
             activeTile := None,
             state := (if Suc k + Suc m = n then WaitingForInput else state ?s),
             effects := effects ?s @ concat (map (tone e) (take (Suc m) xs'))\<rparr>"
    by (rule Suc.IH[OF a b c d e])
  also have "\<dots> = s\<lparr>timers := flashes t0 d n (k + Suc (Suc m)) (drop (Suc (Suc m)) xs),
             now := t0 + (int k + int (Suc m)) * period d + flashDelay (getDifficultySettings d),
             activeTile := None,
             state := (if k + Suc (Suc m) = n then WaitingForInput else state s),
             effects := effects s @ concat (map (tone e) (take (Suc (Suc m)) xs))\<rparr>"
    using notlast by (simp add: pair xs algebra_simps)
  finally show ?case .
qed


subsection \<open>Successful rounds\<close>

lemma calculateMultiplier_spec: "calculateMultiplier n base = base * spec_lengthMultiplier n"
  unfolding calculateMultiplier_def spec_lengthMultiplier_def Let_def by auto

lemma click_more:
  assumes "state s = WaitingForInput"
    and "sequence s = u @ x # y # v"
    and "userSequence s = u"
    and "audible e x"
  shows "after (handleTileClick e x s) =
           s\<lparr>userSequence := u @ [x], activeTile := Some x,
             effects := effects s @ tone e x,
             timers := timers s @
               [\<lparr>due = now s + flashDelay (getDifficultySettings (difficulty s)),
                 tracked = True, callback = InputFlashOff\<rparr>]\<rparr>"
  using assms
  by (simp add: handleTileClick_def playTileSound_ok Let_def setTimeout_def after_def index_def
      nth_append)

lemma click_last:
  assumes "state s = WaitingForInput"
    and "sequence s = u @ [x]"
    and "userSequence s = u"
    and "audible e x"
    and "\<forall>t\<in>set (timers s). tracked t"
  shows "state (after (handleTileClick e x s)) = WaitingForInput
       \<and> sequence (after (handleTileClick e x s)) = u @ [x]
       \<and> userSequence (after (handleTileClick e x s)) = u @ [x]
       \<and> difficulty (after (handleTileClick e x s)) = difficulty s
       \<and> score (after (handleTileClick e x s)) =
           score s + calculateMultiplier (int (length (u @ [x])))
                       (baseMultiplier (getDifficultySettings (difficulty s)))
       \<and> timers (after (handleTileClick e x s)) =
           [\<lparr>due = now s + 1000, tracked = True,
             callback = NextSequence (u @ [x]) (difficulty s)\<rparr>]"
  using assms
  by (simp add: handleTileClick_def playTileSound_ok Let_def setTimeout_def after_def index_def
      nth_append cleanup_def Math_round_of_int saveHighScore_def split: option.splits)

lemma clicks_round:
  assumes "state s = WaitingForInput"
    and "sequence s = u @ v"
    and "v \<noteq> []"
    and "userSequence s = u"
    and "\<forall>x\<in>set v. audible e x"
    and "\<forall>t\<in>set (timers s). tracked t"
  shows "state (clicks e v s) = WaitingForInput
       \<and> sequence (clicks e v s) = u @ v
       \<and> userSequence (clicks e v s) = u @ v
       \<and> difficulty (clicks e v s) = difficulty s
       \<and> score (clicks e v s) =
           score s + calculateMultiplier (int (length (u @ v)))
                       (baseMultiplier (getDifficultySettings (difficulty s)))
       \<and> timers (clicks e v s) =
           [\<lparr>due = now s + 1000, tracked = True,
             callback = NextSequence (u @ v) (difficulty s)\<rparr>]"
  using assms
proof (induction v arbitrary: u s)
  case Nil
  then show ?case by simp
next
  case (Cons x v)
  show ?case
  proof (cases v)
    case Nil
    with click_last[of s u x e] Cons.prems show ?thesis
      by (simp add: clicks_def)
  next
    case (Cons y v')
    let ?s = "after (handleTileClick e x s)"
    have more: "?s = s\<lparr>userSequence := u @ [x], activeTile := Some x,
             effects := effects s @ tone e x,
             timers := timers s @
               [\<lparr>due = now s + flashDelay (getDifficultySettings (difficulty s)),
                 tracked = True, callback = InputFlashOff\<rparr>]\<rparr>"
      using Cons.prems Cons by (intro click_more) auto
    have "state ?s = WaitingForInput" "sequence ?s = (u @ [x]) @ v" "v \<noteq> []"
      "userSequence ?s = u @ [x]" "\<forall>x\<in>set v. audible e x" "\<forall>t\<in>set (timers ?s). tracked t"
      using Cons.prems Cons by (auto simp: more)
    from Cons.IH[OF this] have "state (clicks e v ?s) = WaitingForInput
       \<and> sequence (clicks e v ?s) = (u @ [x]) @ v
       \<and> userSequence (clicks e v ?s) = (u @ [x]) @ v
       \<and> difficulty (clicks e v ?s) = difficulty ?s
       \<and> score (clicks e v ?s) =
           score ?s + calculateMultiplier (int (length ((u @ [x]) @ v)))
                       (baseMultiplier (getDifficultySettings (difficulty ?s)))
       \<and> timers (clicks e v ?s) =
           [\<lparr>due = now ?s + 1000, tracked = True,
             callback = NextSequence ((u @ [x]) @ v) (difficulty ?s)\<rparr>]" .
    moreover have "clicks e (x # v) s = clicks e v ?s" by (simp add: clicks_def)
    ultimately show ?thesis by (simp add: more)
  qed
qed


lemma reveal_pass:
  assumes "timers s = [t]"
    and "fire e r (callback t) (s\<lparr>timers := [], now := max (now s) (due t)\<rparr>) =
           playSequence d (xs @ [r]) s0"
    and "timers s0 = []" and "sequence s0 = xs @ [r]" and "userSequence s0 = []"
    and "score s0 = score s" and "difficulty s0 = difficulty s"
    and "length (sequence s) = length xs"
    and "\<forall>x\<in>set (xs @ [r]). audible e x"
  shows "state (reveal e r s) = WaitingForInput
       \<and> sequence (reveal e r s) = xs @ [r]
       \<and> userSequence (reveal e r s) = []
       \<and> timers (reveal e r s) = []
       \<and> score (reveal e r s) = score s
       \<and> difficulty (reveal e r s) = difficulty s"
proof -
  define s' where "s' = fire_next e r s"
  have s': "s' = playSequence d (xs @ [r]) s0"
    using assms(1,2) by (simp add: s'_def fire_next_def)
  have a: "timers s' = flashes (now s') d (length (xs @ [r])) 0 (xs @ [r])"
    by (simp add: s' playSequence_flashes assms(3))
  have b: "now s' \<le> now s' + int 0 * period d" by simp
  have c: "0 + length (xs @ [r]) = length (xs @ [r])" by simp
  have m: "length xs < length (xs @ [r])" by simp
  have "2 * length (sequence s) + 3 = Suc (2 * Suc (length xs))"
    by (simp add: assms(8))
  then have "reveal e r s = (fire_next e r ^^ (2 * Suc (length xs))) s'"
    by (simp only: reveal_def s'_def funpow_Suc_right o_apply)
  with pass_even[OF a b c assms(9) m, of r] show ?thesis
    by (simp add: s' playSequence_flashes assms(3-7))
qed

lemma startGame_timers:
  "\<forall>t\<in>set (timers s). tracked t \<Longrightarrow>
     timers (startGame s) = [\<lparr>due = now s + 100, tracked = False, callback = StartTick (difficulty s)\<rparr>]"
  by (simp add: startGame_def cleanup_def setTimeout_def)

lemma startGame_fields:
  "state (startGame s) = Idle" "sequence (startGame s) = []" "userSequence (startGame s) = []"
  "score (startGame s) = 0" "difficulty (startGame s) = difficulty s"
  by (simp_all add: startGame_def cleanup_def setTimeout_def)

lemma rounds_snoc: "rounds e (rs @ [r]) s = win_round e (reveal e r (rounds e rs s))"
  by (simp add: rounds_def)

lemma rounds_shape:
  assumes "\<forall>t\<in>set (timers s). tracked t" and "\<forall>r\<in>set rs. audible e r" and "rs \<noteq> []"
  shows "state (rounds e rs s) = WaitingForInput
       \<and> sequence (rounds e rs s) = rs
       \<and> userSequence (rounds e rs s) = rs
       \<and> difficulty (rounds e rs s) = difficulty s
       \<and> score (rounds e rs s) =
           (\<Sum>L = 1..length rs. baseMultiplier (getDifficultySettings (difficulty s))
                                  * spec_lengthMultiplier (int L))
       \<and> (\<exists>t. timers (rounds e rs s) =
             [\<lparr>due = t, tracked = True, callback = NextSequence rs (difficulty s)\<rparr>])"
  using assms(2,3)
proof (induction rs rule: rev_induct)
  case Nil
  then show ?case by simp
next
  case (snoc r rs)
  let ?p = "rounds e rs s"
  let ?q = "reveal e r ?p"
  have aud: "\<forall>x\<in>set (rs @ [r]). audible e x" using snoc.prems by simp
  have q: "state ?q = WaitingForInput \<and> sequence ?q = rs @ [r] \<and> userSequence ?q = []
       \<and> timers ?q = [] \<and> score ?q = score ?p \<and> difficulty ?q = difficulty s"
  proof (cases "rs = []")
    case True
    then have p: "rounds e rs s = startGame s" by (simp add: rounds_def)
    let ?g = "startGame s"
    let ?t = "\<lparr>due = now s + 100, tracked = False, callback = StartTick (difficulty s)\<rparr>"
    let ?s0 = "?g\<lparr>timers := [], now := max (now ?g) (due ?t), sequence := [r]\<rparr>"
    have 1: "timers ?g = [?t]" by (rule startGame_timers[OF assms(1)])
    have 2: "fire e r (callback ?t) (?g\<lparr>timers := [], now := max (now ?g) (due ?t)\<rparr>) =
           playSequence (difficulty s) ([] @ [r]) ?s0"
      by simp
    have 3: "timers ?s0 = []" "sequence ?s0 = [] @ [r]" "userSequence ?s0 = []"
      "score ?s0 = score ?g" "difficulty ?s0 = difficulty ?g"
      "length (sequence ?g) = length ([]::int list)"
      by (simp_all add: startGame_fields)
    have 4: "\<forall>x\<in>set ([] @ [r]). audible e x" using aud by simp
    from reveal_pass[OF 1 2 3 4] show ?thesis
      by (simp add: True rounds_def startGame_fields)
  next
    case False
    with snoc have ih: "state ?p = WaitingForInput" "sequence ?p = rs" "userSequence ?p = rs"
      "difficulty ?p = difficulty s"
      "\<exists>t. timers ?p = [\<lparr>due = t, tracked = True, callback = NextSequence rs (difficulty s)\<rparr>]"
      by simp_all
    from ih(5) obtain t where
      t: "timers ?p = [\<lparr>due = t, tracked = True, callback = NextSequence rs (difficulty s)\<rparr>]" ..
    let ?t = "\<lparr>due = t, tracked = True, callback = NextSequence rs (difficulty s)\<rparr>"
    have "fire e r (callback ?t) (?p\<lparr>timers := [], now := max (now ?p) (due ?t)\<rparr>) =
           playSequence (difficulty s) (rs @ [r])
             (?p\<lparr>timers := [], now := max (now ?p) (due ?t), sequence := rs @ [r],
                 userSequence := []\<rparr>)"
      by (simp add: addToSequence_def Let_def)
    then show ?thesis
      using reveal_pass[of ?p ?t e r "difficulty s" rs
          "?p\<lparr>timers := [], now := max (now ?p) (due ?t), sequence := rs @ [r],
                 userSequence := []\<rparr>"] t aud ih
      by simp
  qed
  then have pre: "state ?q = WaitingForInput" "sequence ?q = [] @ (rs @ [r])" "rs @ [r] \<noteq> []"
    "userSequence ?q = []" "\<forall>x\<in>set (rs @ [r]). audible e x" "\<forall>t\<in>set (timers ?q). tracked t"
    using aud by simp_all
  have w: "rounds e (rs @ [r]) s = clicks e (rs @ [r]) ?q"
    using q by (simp add: rounds_snoc win_round_def)
  have sc: "score ?p = (\<Sum>L = 1..length rs. baseMultiplier (getDifficultySettings (difficulty s))
                                  * spec_lengthMultiplier (int L))"
  proof (cases "rs = []")
    case True
    then show ?thesis by (simp add: rounds_def startGame_fields)
  next
    case False
    with snoc show ?thesis by simp
  qed
  from clicks_round[OF pre] q sc show ?case
    unfolding w by (simp add: calculateMultiplier_spec)
qed

subsection \<open>What a tile click does\<close>

lemma playTileSound_cases:
  "playTileSound e x s = Inl TypeError
   \<or> playTileSound e x s = Inr (s\<lparr>effects := effects s @ tone e x\<rparr>)"
  by (auto simp: playTileSound_def playTone_def tone_def split: option.splits)

lemma index_Some: "index xs i = Some x \<longleftrightarrow> 0 \<le> i \<and> i < int (length xs) \<and> xs ! nat i = x"
  by (auto simp: index_def)

lemma click_fields:
  assumes "state s = WaitingForInput" and "audible e i"
  shows "now (after (handleTileClick e i s)) = now s"
    and "sequence (after (handleTileClick e i s)) = sequence s"
    and "userSequence (after (handleTileClick e i s)) = userSequence s @ [i]"
    and "state (after (handleTileClick e i s)) =
           (if index (sequence s) (int (length (userSequence s))) = Some i
            then WaitingForInput else GameOver)"
    and "timers (after (handleTileClick e i s)) =
           (if index (sequence s) (int (length (userSequence s))) \<noteq> Some i
            then filter (\<lambda>u. \<not> tracked u) (timers s)
            else if length (userSequence s) + 1 = length (sequence s)
            then filter (\<lambda>u. \<not> tracked u) (timers s) @
                   [\<lparr>due = now s + 1000, tracked = True,
                     callback = NextSequence (sequence s) (difficulty s)\<rparr>]
            else timers s @
                   [\<lparr>due = now s + flashDelay (getDifficultySettings (difficulty s)),
                     tracked = True, callback = InputFlashOff\<rparr>])"
  using assms
  by (auto simp: handleTileClick_def playTileSound_ok Let_def setTimeout_def after_def
      cleanup_def handleGameOver_def saveHighScore_def split: option.splits)

lemma playTileSound_throws:
  "\<not> audible e x \<Longrightarrow> playTileSound e x s = Inl TypeError"
  by (auto simp: audible_def playTileSound_def playTone_def index_def TILE_FREQUENCIES_def)

lemma click_throws:
  assumes "state s = WaitingForInput" and "\<not> audible e i"
  shows "handleTileClick e i s =
           Inl (TypeError, s\<lparr>userSequence := userSequence s @ [i], activeTile := Some i\<rparr>)"
  using assms by (simp add: handleTileClick_def playTileSound_throws Let_def)

lemma returns_audible:
  assumes "returns e (Click i) s" and "state s = WaitingForInput"
  shows "audible e i"
proof (rule ccontr)
  assume "\<not> audible e i"
  from click_throws[OF assms(2) this] assms(1) show False by simp
qed

lemma click_ignored: "state s \<noteq> WaitingForInput \<Longrightarrow> after (handleTileClick e i s) = s"
  by (simp add: handleTileClick_def after_def)

subsection \<open>Requests\<close>

lemma games_rows_append: "games_rows (xs @ ys) = games_rows xs @ games_rows ys"
  by (induction xs rule: games_rows.induct) simp_all

lemma upserts_append: "upserts (xs @ ys) = upserts xs @ upserts ys"
  by (induction xs rule: upserts.induct) simp_all

lemma tone_rows: "games_rows (tone e i) = []" "upserts (tone e i) = []"
  by (simp_all add: tone_def split: option.splits)

lemma fire_effects:
  "effects (fire e r cb s) = effects s \<or> (\<exists>x. effects (fire e r cb s) = effects s @ tone e x)"
proof (cases cb)
  case (FlashOn x l fd)
  with playTileSound_cases[of e x "s\<lparr>activeTile := Some x\<rparr>"] show ?thesis
    by (auto simp: Let_def setTimeout_def)
qed (simp_all add: playSequence_def addToSequence_def Let_def)

lemma fire_state:
  "state (fire e r cb s) = state s \<or> state (fire e r cb s) = ShowingSequence
   \<or> state (fire e r cb s) = WaitingForInput"
proof (cases cb)
  case (FlashOn x l fd)
  with playTileSound_cases[of e x "s\<lparr>activeTile := Some x\<rparr>"] show ?thesis
    by (auto simp: Let_def setTimeout_def)
qed (simp_all add: playSequence_def addToSequence_def Let_def)

lemma fire_next_effects:
  "upserts (effects (fire_next e r s)) = upserts (effects s)"
  "games_rows (effects (fire_next e r s)) = games_rows (effects s)"
proof -
  have "effects (fire_next e r s) = effects s
        \<or> (\<exists>x. effects (fire_next e r s) = effects s @ tone e x)"
  proof (cases "earliest (timers s)")
    case None
    then show ?thesis by (simp add: fire_next_def)
  next
    case (Some p)
    obtain t rest where "p = (t, rest)" by (cases p)
    with Some fire_effects[of e r "callback t" "s\<lparr>timers := rest, now := max (now s) (due t)\<rparr>"]
    show ?thesis by (simp add: fire_next_def)
  qed
  then show "upserts (effects (fire_next e r s)) = upserts (effects s)"
    "games_rows (effects (fire_next e r s)) = games_rows (effects s)"
    by (auto simp: upserts_append games_rows_append tone_rows)
qed

lemma fire_next_state:
  "state s \<noteq> GameOver \<Longrightarrow> state (fire_next e r s) \<noteq> GameOver"
proof (cases "earliest (timers s)")
  case None
  assume "state s \<noteq> GameOver"
  with None show ?thesis by (simp add: fire_next_def)
next
  case (Some p)
  assume a: "state s \<noteq> GameOver"
  obtain t rest where "p = (t, rest)" by (cases p)
  with Some a fire_state[of e r "callback t" "s\<lparr>timers := rest, now := max (now s) (due t)\<rparr>"]
  show ?thesis by (auto simp: fire_next_def)
qed

lemma click_effects:
  assumes "state s = WaitingForInput" and "audible e i"
  shows "effects (after (handleTileClick e i s)) =
           effects s @ tone e i @
           (if index (sequence s) (int (length (userSequence s))) \<noteq> Some i
            then (case signed_in e of
                    None \<Rightarrow> []
                  | Some uid \<Rightarrow>
                      [GamesInsert uid (score s) (difficulty s)
                         (if currentTheme_id e = ''default''
                          then ''00000000-0000-0000-0000-000000000000''
                          else currentTheme_id e)
                         (int (length (sequence s)) - 1)])
            else if length (userSequence s) + 1 = length (sequence s)
                  \<and> highScore s < score s + calculateMultiplier (int (length (sequence s)))
                        (baseMultiplier (getDifficultySettings (difficulty s)))
            then (case signed_in e of
                    None \<Rightarrow> []
                  | Some uid \<Rightarrow>
                      [HighScoresUpsert uid
                         (score s + calculateMultiplier (int (length (sequence s)))
                            (baseMultiplier (getDifficultySettings (difficulty s))))
                         (difficulty s)])
            else [])"
  using assms
  by (auto simp: handleTileClick_def playTileSound_ok Let_def setTimeout_def after_def
      cleanup_def handleGameOver_def saveHighScore_def Math_round_of_int split: option.splits)

subsection \<open>The invariants hold in the reachable states\<close>

lemma timer_ok_later: "timer_ok t u \<Longrightarrow> t \<le> t' \<Longrightarrow> timer_ok t' u"
  by (auto simp: timer_ok_def)

lemma starts_first_subset: "starts_first ts \<Longrightarrow> set ts' \<subseteq> set ts \<Longrightarrow> starts_first ts'"
  unfolding starts_first_def by blast

lemma starts_first_plain:
  assumes "starts_first ts"
    and "\<forall>u\<in>set new. \<not> is_start (callback u) \<and> \<not> is_off (callback u)"
  shows "starts_first (ts @ new)"
  using assms unfolding starts_first_def by auto

lemma start_not_off: "is_start cb \<Longrightarrow> \<not> is_off cb"
  by (cases cb) auto

lemma start_not_next: "is_start cb \<Longrightarrow> next_of cb = None"
  by (cases cb) auto

lemma starts_first_starts:
  assumes "\<forall>u\<in>set ts. is_start (callback u)"
  shows "starts_first ts"
  using assms start_not_off unfolding starts_first_def by blast

lemma starts_first_off:
  assumes "starts_first ts" and "is_off (callback v)"
    and "\<forall>u\<in>set ts. is_start (callback u) \<longrightarrow> due u < due v"
  shows "starts_first (ts @ [v])"
proof -
  have "\<not> is_start (callback v)" using assms(2) start_not_off by blast
  with assms show ?thesis unfolding starts_first_def by auto
qed

lemma untracked_are_starts:
  "\<forall>u\<in>set ts. timer_ok t u \<Longrightarrow> \<forall>u\<in>set (filter (\<lambda>u. \<not> tracked u) ts). is_start (callback u)"
  by (auto simp: timer_ok_def)

lemma no_starts_cleanup:
  assumes "\<forall>u\<in>set ts. timer_ok t u" and "\<not> (\<exists>u\<in>set ts. is_start (callback u))"
  shows "filter (\<lambda>u. \<not> tracked u) ts = []"
  using assms by (auto simp: timer_ok_def filter_empty_conv)

lemma flashes_plain:
  assumes "u \<in> set (flashes t0 d n k xs)" and "\<forall>x\<in>set xs. 0 \<le> x \<and> x < 9"
  shows "timer_ok t u \<and> \<not> is_start (callback u) \<and> \<not> is_off (callback u)
         \<and> next_of (callback u) = None"
proof -
  from assms(1) obtain j x where "(j, x) \<in> set (enumerate k xs)"
    and u: "u = \<lparr>due = t0 + int j * period d, tracked = True,
             callback = FlashOn x (int j = int n - 1) (flashDelay (getDifficultySettings d))\<rparr>"
    by (auto simp: flashes_def)
  then have "x \<in> set xs" by (auto simp: in_set_enumerate_eq)
  with assms(2) have "0 \<le> x \<and> x < 9" by blast
  then show ?thesis using delays_pos(3)[of d] by (simp add: u timer_ok_def)
qed

lemma timers_invI:
  assumes "\<forall>u\<in>set (timers s). timer_ok (now s) u"
    and "starts_first (timers s)"
    and "\<And>u. u \<in> set (timers s) \<Longrightarrow> is_start (callback u) \<Longrightarrow>
           userSequence s = [] \<and> state s \<noteq> WaitingForInput"
    and "state s = Idle \<Longrightarrow> score s = 0 \<and> sequence s = []"
    and "\<forall>x\<in>set (sequence s). 0 \<le> x \<and> x < 9"
    and "\<And>u q. u \<in> set (timers s) \<Longrightarrow> next_of (callback u) = Some q \<Longrightarrow>
           timers s = [u] \<and> q = sequence s \<and> state s = WaitingForInput
           \<and> length (sequence s) \<le> length (userSequence s)"
  shows "timers_inv s"
  unfolding timers_inv_def using assms by blast

lemma timers_invD:
  assumes "timers_inv s"
  shows "\<forall>u\<in>set (timers s). timer_ok (now s) u"
    and "starts_first (timers s)"
    and "\<And>u. u \<in> set (timers s) \<Longrightarrow> is_start (callback u) \<Longrightarrow>
           userSequence s = [] \<and> state s \<noteq> WaitingForInput"
    and "state s = Idle \<Longrightarrow> score s = 0 \<and> sequence s = []"
    and "\<forall>x\<in>set (sequence s). 0 \<le> x \<and> x < 9"
    and "\<And>u q. u \<in> set (timers s) \<Longrightarrow> next_of (callback u) = Some q \<Longrightarrow>
           timers s = [u] \<and> q = sequence s \<and> state s = WaitingForInput
           \<and> length (sequence s) \<le> length (userSequence s)"
  using assms unfolding timers_inv_def by blast+

lemma timers_inv_initial: "timers_inv initial"
  by (simp add: timers_inv_def initial_def starts_first_def)

text \<open>The commands that cancel the tracked timers.\<close>

lemma timers_inv_cancel:
  assumes "timers_inv s"
    and "timers s' = filter (\<lambda>u. \<not> tracked u) (timers s) @ new"
    and "\<forall>v\<in>set new. is_start (callback v) \<and> \<not> tracked v \<and> due v \<le> now s + 100"
    and "now s' = now s"
    and "state s' \<noteq> WaitingForInput"
    and "userSequence s' = [] \<or> (new = [] \<and> userSequence s' = userSequence s)"
    and "state s' = Idle \<Longrightarrow> score s' = 0 \<and> sequence s' = []"
    and "set (sequence s') \<subseteq> set (sequence s)"
  shows "timers_inv s'"
proof (rule timers_invI)
  let ?ts = "filter (\<lambda>u. \<not> tracked u) (timers s)"
  note ok = timers_invD(1)[OF assms(1)]
  have st: "\<forall>u\<in>set (timers s'). is_start (callback u)"
    using untracked_are_starts[OF ok] assms(2,3) by auto
  show "\<forall>u\<in>set (timers s'). timer_ok (now s') u"
  proof
    fix u assume "u \<in> set (timers s')"
    then have "u \<in> set (timers s) \<or> u \<in> set new" using assms(2) by auto
    then show "timer_ok (now s') u"
    proof
      assume "u \<in> set (timers s)"
      with ok show ?thesis by (simp add: assms(4))
    next
      assume u: "u \<in> set new"
      with assms(3) have "is_start (callback u)" "\<not> tracked u" "due u \<le> now s + 100"
        by blast+
      then show ?thesis by (cases "callback u") (simp_all add: timer_ok_def assms(4))
    qed
  qed
  show "starts_first (timers s')" using st by (rule starts_first_starts)
  show "\<forall>x\<in>set (sequence s'). 0 \<le> x \<and> x < 9"
    using timers_invD(5)[OF assms(1)] assms(8) by blast
next
  fix u assume u: "u \<in> set (timers s')" "is_start (callback u)"
  show "userSequence s' = [] \<and> state s' \<noteq> WaitingForInput"
  proof (cases "userSequence s' = []")
    case True
    with assms(5) show ?thesis by simp
  next
    case False
    with assms(6) have n: "new = []" "userSequence s' = userSequence s" by auto
    with u assms(2) have "u \<in> set (timers s)" by simp
    from timers_invD(3)[OF assms(1) this u(2)] n False show ?thesis by simp
  qed
next
  assume "state s' = Idle"
  then show "score s' = 0 \<and> sequence s' = []" by (rule assms(7))
next
  fix u q assume u: "u \<in> set (timers s')" "next_of (callback u) = Some q"
  let ?ts = "filter (\<lambda>u. \<not> tracked u) (timers s)"
  have "is_start (callback u)"
    using untracked_are_starts[OF timers_invD(1)[OF assms(1)]] assms(2,3) u(1) by auto
  from start_not_next[OF this] u(2) have False by simp
  then show "timers s' = [u] \<and> q = sequence s' \<and> state s' = WaitingForInput
           \<and> length (sequence s') \<le> length (userSequence s')" ..
qed

lemma timers_inv_startGame: "timers_inv s \<Longrightarrow> timers_inv (startGame s)"
  by (erule timers_inv_cancel[where new = "[\<lparr>due = now s + 100, tracked = False,
        callback = StartTick (difficulty s)\<rparr>]"])
    (simp_all add: startGame_def cleanup_def setTimeout_def)

lemma timers_inv_resetGame: "timers_inv s \<Longrightarrow> timers_inv (resetGame s)"
  by (erule timers_inv_cancel[where new = "[]"]) (simp_all add: resetGame_def cleanup_def)

lemma timers_inv_stopGame: "timers_inv s \<Longrightarrow> timers_inv (stopGame e s)"
  by (erule timers_inv_cancel[where new = "[]"])
    (simp_all add: stopGame_def handleGameOver_def cleanup_def Let_def split: option.splits)

lemma timers_inv_frame:
  assumes "timers_inv s" and "timers s' = timers s" and "now s \<le> now s'"
    and "length (userSequence s) \<le> length (userSequence s')"
    and "userSequence s' = userSequence s \<or> state s = WaitingForInput"
    and "sequence s' = sequence s" and "state s' = state s" and "score s' = score s"
  shows "timers_inv s'"
proof (rule timers_invI)
  show "\<forall>u\<in>set (timers s'). timer_ok (now s') u"
    using timers_invD(1)[OF assms(1)] assms(2,3) by (auto intro: timer_ok_later)
  show "starts_first (timers s')" using timers_invD(2)[OF assms(1)] assms(2) by simp
  show "\<forall>x\<in>set (sequence s'). 0 \<le> x \<and> x < 9"
    using timers_invD(5)[OF assms(1)] assms(6) by simp
next
  fix u assume "u \<in> set (timers s')" "is_start (callback u)"
  with timers_invD(3)[OF assms(1), of u] assms(2,5,7)
  show "userSequence s' = [] \<and> state s' \<noteq> WaitingForInput" by auto
next
  assume "state s' = Idle"
  with timers_invD(4)[OF assms(1)] assms(6,7,8)
  show "score s' = 0 \<and> sequence s' = []" by simp
next
  fix u q assume "u \<in> set (timers s')" "next_of (callback u) = Some q"
  with timers_invD(6)[OF assms(1), of u q] assms(2,4,6,7)
  show "timers s' = [u] \<and> q = sequence s' \<and> state s' = WaitingForInput
           \<and> length (sequence s') \<le> length (userSequence s')" by simp
qed


lemma timers_inv_click:
  assumes "timers_inv s"
  shows "timers_inv (after (handleTileClick e i s))"
proof (cases "state s = WaitingForInput")
  case False
  then show ?thesis using assms by (simp add: click_ignored)
next
  case True
  let ?s = "after (handleTileClick e i s)"
  note ok = timers_invD(1)[OF assms]
  have nostart: "\<not> (\<exists>u\<in>set (timers s). is_start (callback u))"
    using timers_invD(3)[OF assms] True by blast
  have clean: "filter (\<lambda>u. \<not> tracked u) (timers s) = []"
    using ok nostart by (rule no_starts_cleanup)
  show ?thesis
  proof (cases "audible e i")
    case False
    have "?s = s\<lparr>userSequence := userSequence s @ [i], activeTile := Some i\<rparr>"
      by (simp add: click_throws[OF True False] after_def)
    then show ?thesis using True by (intro timers_inv_frame[OF assms]) simp_all
  next
    case aud: True
    note f = click_fields[OF True aud]
    show ?thesis
    proof (cases "index (sequence s) (int (length (userSequence s))) = Some i")
      case False
      then have "timers ?s = []" "state ?s = GameOver" "sequence ?s = sequence s"
        by (simp_all add: f clean)
      then show ?thesis using timers_invD(5)[OF assms]
        by (intro timers_invI) (simp_all add: starts_first_def)
    next
      case hit: True
      then have lt: "length (userSequence s) < length (sequence s)"
        by (simp add: index_Some)
      have st: "state ?s = WaitingForInput" using hit by (simp add: f)
      have nonext: "next_of (callback u) = None" if "u \<in> set (timers s)" for u
      proof (cases "next_of (callback u)")
        case None
        then show ?thesis .
      next
        case (Some q)
        from timers_invD(6)[OF assms that Some] lt show ?thesis by simp
      qed
      show ?thesis
      proof (cases "length (userSequence s) + 1 = length (sequence s)")
        case True
        let ?v = "\<lparr>due = now s + 1000, tracked = True,
                    callback = NextSequence (sequence s) (difficulty s)\<rparr>"
        have tm: "timers ?s = [?v]" using hit True by (simp add: f(5) clean)
        show ?thesis
        proof (rule timers_invI)
          show "\<forall>u\<in>set (timers ?s). timer_ok (now ?s) u"
            using timers_invD(5)[OF assms] by (simp add: tm timer_ok_def)
          show "starts_first (timers ?s)" by (simp add: tm starts_first_def)
          show "\<forall>x\<in>set (sequence ?s). 0 \<le> x \<and> x < 9"
            using timers_invD(5)[OF assms] by (simp add: f(2))
        next
          fix u assume "u \<in> set (timers ?s)" "is_start (callback u)"
          then have False by (simp add: tm)
          then show "userSequence ?s = [] \<and> state ?s \<noteq> WaitingForInput" ..
        next
          assume "state ?s = Idle"
          with st show "score ?s = 0 \<and> sequence ?s = []" by simp
        next
          fix u q assume "u \<in> set (timers ?s)" "next_of (callback u) = Some q"
          then show "timers ?s = [u] \<and> q = sequence ?s \<and> state ?s = WaitingForInput
             \<and> length (sequence ?s) \<le> length (userSequence ?s)"
            using True st by (simp add: tm f(2,3))
        qed
      next
        case False
        let ?v = "\<lparr>due = now s + flashDelay (getDifficultySettings (difficulty s)),
                    tracked = True, callback = InputFlashOff\<rparr>"
        have tm: "timers ?s = timers s @ [?v]" using hit False by (simp add: f(5))
        show ?thesis
        proof (rule timers_invI)
          show "\<forall>u\<in>set (timers ?s). timer_ok (now ?s) u"
            using ok by (simp add: tm f(1) timer_ok_def)
          show "starts_first (timers ?s)"
            unfolding tm by (rule starts_first_plain[OF timers_invD(2)[OF assms]]) simp
          show "\<forall>x\<in>set (sequence ?s). 0 \<le> x \<and> x < 9"
            using timers_invD(5)[OF assms] by (simp add: f(2))
        next
          fix u assume "u \<in> set (timers ?s)" "is_start (callback u)"
          with nostart have False by (auto simp: tm)
          then show "userSequence ?s = [] \<and> state ?s \<noteq> WaitingForInput" ..
        next
          assume "state ?s = Idle"
          with st show "score ?s = 0 \<and> sequence ?s = []" by simp
        next
          fix u q assume "u \<in> set (timers ?s)" "next_of (callback u) = Some q"
          with nonext[of u] have False by (auto simp: tm)
          then show "timers ?s = [u] \<and> q = sequence ?s \<and> state ?s = WaitingForInput
             \<and> length (sequence ?s) \<le> length (userSequence ?s)" ..
        qed
      qed
    qed
  qed
qed


lemma timers_inv_fire_next:
  assumes "timers_inv s" and "0 \<le> r \<and> r < 9"
  shows "timers_inv (fire_next e r s)"
proof (cases "earliest (timers s)")
  case None
  then show ?thesis using assms(1) by (simp add: fire_next_def)
next
  case (Some p)
  obtain t rest where p: "p = (t, rest)" by (cases p)
  define n' where "n' = max (now s) (due t)"
  define s1 where "s1 = s\<lparr>timers := rest, now := n'\<rparr>"
  have fn: "fire_next e r s = fire e r (callback t) s1"
    using Some p by (simp add: fire_next_def s1_def n'_def)
  have es: "set (timers s) = insert t (set rest)" and least: "\<forall>v\<in>set (timers s). due t \<le> due v"
    using earliest_set[of "timers s" t rest] Some p by simp_all
  have sub: "set rest \<subseteq> set (timers s)" using es by auto
  have tin: "t \<in> set (timers s)" using es by auto
  have tok: "timer_ok (now s) t" using timers_invD(1)[OF assms(1)] tin by blast
  have okr: "\<forall>u\<in>set rest. timer_ok n' u"
  proof
    fix u assume "u \<in> set rest"
    then have "timer_ok (now s) u" using timers_invD(1)[OF assms(1)] sub by blast
    then show "timer_ok n' u" by (rule timer_ok_later) (simp add: n'_def)
  qed
  have sfr: "starts_first rest"
    using timers_invD(2)[OF assms(1)] sub by (rule starts_first_subset)
  have st3: "userSequence s = [] \<and> state s \<noteq> WaitingForInput"
    if "u \<in> set rest" "is_start (callback u)" for u
    using timers_invD(3)[OF assms(1), of u] that sub by blast
  have nonext: "next_of (callback u) = None" if "u \<in> set rest" for u
  proof (cases "next_of (callback u)")
    case None
    then show ?thesis .
  next
    case (Some q)
    have "u \<in> set (timers s)" using that sub by auto
    from timers_invD(6)[OF assms(1) this Some] have "timers s = [u]" by simp
    with \<open>earliest (timers s) = Some p\<close> p have "rest = []" by simp
    with that show ?thesis by simp
  qed
  note seq = timers_invD(5)[OF assms(1)]
  show ?thesis
  proof (cases "callback t")
    case (StartTick d)
    let ?s = "fire e r (callback t) s1"
    have f: "timers ?s = rest @ flashes n' d 1 0 [r]" "now ?s = n'"
      "userSequence ?s = userSequence s" "sequence ?s = [r]" "state ?s = ShowingSequence"
      by (simp_all add: StartTick playSequence_flashes s1_def)
    have u0: "userSequence s = []"
      using timers_invD(3)[OF assms(1) tin] StartTick by simp
    have fl: "timer_ok n' u \<and> \<not> is_start (callback u) \<and> \<not> is_off (callback u)
         \<and> next_of (callback u) = None" if "u \<in> set (flashes n' d 1 0 [r])" for u
      using that assms(2) by (intro flashes_plain[of u n' d 1 0 "[r]"]) simp_all
    show ?thesis unfolding fn
    proof (rule timers_invI)
      show "\<forall>u\<in>set (timers ?s). timer_ok (now ?s) u"
        using okr fl by (auto simp: f)
      show "starts_first (timers ?s)"
        unfolding f using sfr fl by (intro starts_first_plain) auto
      show "\<forall>x\<in>set (sequence ?s). 0 \<le> x \<and> x < 9" using assms(2) by (simp add: f)
    next
      fix u q assume "u \<in> set (timers ?s)" "next_of (callback u) = Some q"
      with nonext[of u] fl[of u] have False by (auto simp: f)
      then show "timers ?s = [u] \<and> q = sequence ?s \<and> state ?s = WaitingForInput
             \<and> length (sequence ?s) \<le> length (userSequence ?s)" ..
    qed (simp_all add: f u0)
  next
    case (FlashOn x l fd)
    let ?s = "fire e r (callback t) s1"
    have fd: "100 < fd" using tok FlashOn by (simp add: timer_ok_def)
    let ?v = "\<lparr>due = n' + fd, tracked = True, callback = FlashOff l\<rparr>"
    have same: "now ?s = n'" "userSequence ?s = userSequence s" "sequence ?s = sequence s"
      "state ?s = state s" "score ?s = score s"
      and tm: "timers ?s = rest \<or> timers ?s = rest @ [?v]"
      using playTileSound_cases[of e x "s1\<lparr>activeTile := Some x\<rparr>"]
      by (auto simp: FlashOn Let_def setTimeout_def s1_def)
    have vok: "timer_ok n' ?v" by (simp add: timer_ok_def)
    have sfv: "starts_first (rest @ [?v])"
    proof (rule starts_first_off[OF sfr])
      show "\<forall>u\<in>set rest. is_start (callback u) \<longrightarrow> due u < due ?v"
        using okr fd by (fastforce simp: timer_ok_def)
    qed simp
    have sub': "set (timers ?s) \<subseteq> insert ?v (set rest)" using tm by auto
    show ?thesis unfolding fn
    proof (rule timers_invI)
      show "\<forall>u\<in>set (timers ?s). timer_ok (now ?s) u"
        using okr vok sub' unfolding same by blast
      show "starts_first (timers ?s)" using tm sfr sfv by auto
      show "\<forall>x\<in>set (sequence ?s). 0 \<le> x \<and> x < 9" using seq by (simp add: same)
    next
      fix u assume "u \<in> set (timers ?s)" "is_start (callback u)"
      with sub' have "u \<in> set rest" by auto
      from st3[OF this \<open>is_start (callback u)\<close>]
      show "userSequence ?s = [] \<and> state ?s \<noteq> WaitingForInput" by (simp add: same)
    next
      assume "state ?s = Idle"
      then have "state s = Idle" by (simp add: same)
      from timers_invD(4)[OF assms(1) this] show "score ?s = 0 \<and> sequence ?s = []"
        by (simp add: same)
    next
      fix u q assume "u \<in> set (timers ?s)" "next_of (callback u) = Some q"
      with sub' nonext[of u] have False by auto
      then show "timers ?s = [u] \<and> q = sequence ?s \<and> state ?s = WaitingForInput
             \<and> length (sequence ?s) \<le> length (userSequence ?s)" ..
    qed
  next
    case (FlashOff l)
    let ?s = "fire e r (callback t) s1"
    have f: "timers ?s = rest" "now ?s = n'" "userSequence ?s = userSequence s"
      "sequence ?s = sequence s" "score ?s = score s"
      "state ?s = (if l then WaitingForInput else state s)"
      by (simp_all add: FlashOff Let_def s1_def)
    have nostart: "\<not> is_start (callback u)" if "u \<in> set rest" for u
    proof
      assume a: "is_start (callback u)"
      have "u \<in> set (timers s)" using that sub by auto
      moreover have "is_off (callback t)" using FlashOff by simp
      ultimately have "due u < due t"
        using timers_invD(2)[OF assms(1)] tin a unfolding starts_first_def by blast
      moreover have "due t \<le> due u" using least \<open>u \<in> set (timers s)\<close> by blast
      ultimately show False by simp
    qed
    show ?thesis unfolding fn
    proof (rule timers_invI)
      show "\<forall>u\<in>set (timers ?s). timer_ok (now ?s) u" using okr by (simp add: f)
      show "starts_first (timers ?s)" using sfr by (simp add: f)
      show "\<forall>x\<in>set (sequence ?s). 0 \<le> x \<and> x < 9" using seq by (simp add: f)
    next
      fix u assume "u \<in> set (timers ?s)" "is_start (callback u)"
      with nostart[of u] have False by (simp add: f)
      then show "userSequence ?s = [] \<and> state ?s \<noteq> WaitingForInput" ..
    next
      assume "state ?s = Idle"
      then have "state s = Idle" by (simp add: f split: if_splits)
      from timers_invD(4)[OF assms(1) this] show "score ?s = 0 \<and> sequence ?s = []"
        by (simp add: f)
    next
      fix u q assume "u \<in> set (timers ?s)" "next_of (callback u) = Some q"
      with nonext[of u] have False by (simp add: f)
      then show "timers ?s = [u] \<and> q = sequence ?s \<and> state ?s = WaitingForInput
             \<and> length (sequence ?s) \<le> length (userSequence ?s)" ..
    qed
  next
    case InputFlashOff
    let ?s = "fire e r (callback t) s1"
    have f: "timers ?s = rest" "now ?s = n'" "userSequence ?s = userSequence s"
      "sequence ?s = sequence s" "score ?s = score s" "state ?s = state s"
      by (simp_all add: InputFlashOff s1_def)
    show ?thesis unfolding fn
    proof (rule timers_invI)
      show "\<forall>u\<in>set (timers ?s). timer_ok (now ?s) u" using okr by (simp add: f)
      show "starts_first (timers ?s)" using sfr by (simp add: f)
      show "\<forall>x\<in>set (sequence ?s). 0 \<le> x \<and> x < 9" using seq by (simp add: f)
    next
      fix u assume "u \<in> set (timers ?s)" "is_start (callback u)"
      then have "u \<in> set rest" by (simp add: f)
      from st3[OF this \<open>is_start (callback u)\<close>]
      show "userSequence ?s = [] \<and> state ?s \<noteq> WaitingForInput" by (simp add: f)
    next
      assume "state ?s = Idle"
      then have "state s = Idle" by (simp add: f)
      from timers_invD(4)[OF assms(1) this] show "score ?s = 0 \<and> sequence ?s = []"
        by (simp add: f)
    next
      fix u q assume "u \<in> set (timers ?s)" "next_of (callback u) = Some q"
      with nonext[of u] have False by (simp add: f)
      then show "timers ?s = [u] \<and> q = sequence ?s \<and> state ?s = WaitingForInput
             \<and> length (sequence ?s) \<le> length (userSequence ?s)" ..
    qed
  next
    case (NextSequence q d)
    let ?s = "fire e r (callback t) s1"
    have f: "timers ?s = rest @ flashes n' d (length (q @ [r])) 0 (q @ [r])" "now ?s = n'"
      "userSequence ?s = []" "state ?s = ShowingSequence" "sequence ?s = q @ [r]"
      by (simp_all add: NextSequence addToSequence_def Let_def playSequence_flashes s1_def)
    have qr: "\<forall>x\<in>set (q @ [r]). 0 \<le> x \<and> x < 9"
      using tok NextSequence assms(2) by (simp add: timer_ok_def)
    have fl: "timer_ok n' u \<and> \<not> is_start (callback u) \<and> \<not> is_off (callback u)
         \<and> next_of (callback u) = None"
      if "u \<in> set (flashes n' d (length (q @ [r])) 0 (q @ [r]))" for u
      using that qr by (rule flashes_plain)
    show ?thesis unfolding fn
    proof (rule timers_invI)
      show "\<forall>u\<in>set (timers ?s). timer_ok (now ?s) u"
        using okr fl by (auto simp: f)
      show "starts_first (timers ?s)"
        unfolding f using sfr fl by (intro starts_first_plain) auto
      show "\<forall>x\<in>set (sequence ?s). 0 \<le> x \<and> x < 9" using qr by (simp add: f)
    next
      fix u p' assume "u \<in> set (timers ?s)" "next_of (callback u) = Some p'"
      with nonext[of u] fl[of u] have False by (auto simp: f)
      then show "timers ?s = [u] \<and> p' = sequence ?s \<and> state ?s = WaitingForInput
             \<and> length (sequence ?s) \<le> length (userSequence ?s)" ..
    qed (simp_all add: f)
  qed
qed

lemma timers_inv_step:
  assumes "timers_inv s" and "enabled ev s"
  shows "timers_inv (apply_event e ev s)"
proof (cases ev)
  case (Click i)
  show ?thesis unfolding Click apply_event.simps by (rule timers_inv_click[OF assms(1)])
next
  case Start
  show ?thesis unfolding Start apply_event.simps by (rule timers_inv_startGame[OF assms(1)])
next
  case Stop
  show ?thesis unfolding Stop apply_event.simps by (rule timers_inv_stopGame[OF assms(1)])
next
  case Reset
  show ?thesis unfolding Reset apply_event.simps by (rule timers_inv_resetGame[OF assms(1)])
next
  case (SetDifficulty d)
  show ?thesis unfolding SetDifficulty apply_event.simps
    by (rule timers_inv_frame[OF assms(1)]) (simp_all add: setDifficulty_def)
next
  case (HighScoreFetched v)
  show ?thesis unfolding HighScoreFetched apply_event.simps
    by (rule timers_inv_frame[OF assms(1)]) (simp_all add: fetchedHighScore_def)
next
  case (Elapse dt)
  then have "0 \<le> dt" using assms(2) by simp
  then show ?thesis unfolding Elapse apply_event.simps
    by (intro timers_inv_frame[OF assms(1)]) simp_all
next
  case (Timeout r)
  then have "0 \<le> r \<and> r < 9" using assms(2) by simp
  then show ?thesis unfolding Timeout apply_event.simps
    by (rule timers_inv_fire_next[OF assms(1)])
qed

lemma reachable_timers_inv: "reachable s \<Longrightarrow> timers_inv s"
proof (induction rule: reachable.induct)
  case start
  show ?case by (rule timers_inv_initial)
next
  case (step s ev e)
  then show ?case by (intro timers_inv_step)
qed

lemma run_reachable: "reachable s \<Longrightarrow> run e evs s = Some s' \<Longrightarrow> reachable s'"
proof (induction evs arbitrary: s)
  case Nil
  then show ?case by simp
next
  case (Cons ev evs)
  from Cons.prems(2) have en: "enabled ev s" and r: "run e evs (apply_event e ev s) = Some s'"
    by (simp_all split: if_splits)
  from Cons.prems(1) en have "reachable (apply_event e ev s)" by (rule reachable.step)
  from Cons.IH[OF this r] show ?case .
qed


lemma prefix_okI:
  "(take (length (userSequence s)) (sequence s) \<noteq> userSequence s \<Longrightarrow>
      state s = GameOver \<and> timers s = []) \<Longrightarrow> prefix_ok s"
  unfolding prefix_ok_def by blast

lemma prefix_okD:
  "prefix_ok s \<Longrightarrow> take (length (userSequence s)) (sequence s) \<noteq> userSequence s \<Longrightarrow>
     state s = GameOver \<and> timers s = []"
  unfolding prefix_ok_def by blast

lemma prefix_ok_empty: "userSequence s = [] \<Longrightarrow> prefix_ok s"
  by (simp add: prefix_ok_def)

lemma prefix_ok_initial: "prefix_ok initial"
  by (simp add: prefix_ok_def initial_def)

lemma prefix_ok_frame:
  assumes "prefix_ok s" and "timers s' = timers s"
    and "userSequence s' = userSequence s" and "sequence s' = sequence s"
    and "state s' = state s"
  shows "prefix_ok s'"
proof (rule prefix_okI)
  assume "take (length (userSequence s')) (sequence s') \<noteq> userSequence s'"
  then have "take (length (userSequence s)) (sequence s) \<noteq> userSequence s"
    by (simp add: assms(3,4))
  from prefix_okD[OF assms(1) this] show "state s' = GameOver \<and> timers s' = []"
    by (simp add: assms(2,5))
qed

lemma prefix_ok_stopGame:
  assumes "prefix_ok s"
  shows "prefix_ok (stopGame e s)"
proof (rule prefix_okI)
  have f: "userSequence (stopGame e s) = userSequence s" "sequence (stopGame e s) = sequence s"
    "state (stopGame e s) = GameOver"
    "timers (stopGame e s) = filter (\<lambda>u. \<not> tracked u) (timers s)"
    by (simp_all add: stopGame_def handleGameOver_def cleanup_def Let_def split: option.splits)
  assume "take (length (userSequence (stopGame e s))) (sequence (stopGame e s))
            \<noteq> userSequence (stopGame e s)"
  then have "take (length (userSequence s)) (sequence s) \<noteq> userSequence s" by (simp add: f)
  from prefix_okD[OF assms this]
  show "state (stopGame e s) = GameOver \<and> timers (stopGame e s) = []" by (simp add: f)
qed

lemma prefix_ok_click:
  assumes "timers_inv s" and "prefix_ok s" and "returns e (Click i) s"
  shows "prefix_ok (after (handleTileClick e i s))"
proof (cases "state s = WaitingForInput")
  case False
  then show ?thesis using assms(2) by (simp add: click_ignored)
next
  case True
  let ?s = "after (handleTileClick e i s)"
  have aud: "audible e i" using assms(3) True by (rule returns_audible)
  note f = click_fields[OF True aud]
  have nostart: "\<not> (\<exists>u\<in>set (timers s). is_start (callback u))"
    using timers_invD(3)[OF assms(1)] True by blast
  have clean: "filter (\<lambda>u. \<not> tracked u) (timers s) = []"
    using timers_invD(1)[OF assms(1)] nostart by (rule no_starts_cleanup)
  have pre: "take (length (userSequence s)) (sequence s) = userSequence s"
    using prefix_okD[OF assms(2)] True by fastforce
  show ?thesis
  proof (cases "index (sequence s) (int (length (userSequence s))) = Some i")
    case False
    then have "timers ?s = []" "state ?s = GameOver" by (simp_all add: f clean)
    then show ?thesis by (simp add: prefix_ok_def)
  next
    case hit: True
    then have lt: "length (userSequence s) < length (sequence s)"
      and nth: "sequence s ! length (userSequence s) = i"
      by (simp_all add: index_Some)
    have "take (length (userSequence ?s)) (sequence ?s) = userSequence ?s"
      using pre nth lt by (simp add: f take_Suc_conv_app_nth)
    then show ?thesis by (simp add: prefix_ok_def)
  qed
qed

lemma fire_input:
  "userSequence (fire e r cb s) = (if next_of cb = None then userSequence s else [])"
proof (cases cb)
  case (FlashOn x l fd)
  with playTileSound_cases[of e x "s\<lparr>activeTile := Some x\<rparr>"] show ?thesis
    by (auto simp: Let_def setTimeout_def)
qed (simp_all add: playSequence_def addToSequence_def Let_def)

lemma fire_sequence:
  "is_start cb \<or> sequence (fire e r cb s) = sequence s \<or> next_of cb \<noteq> None"
proof (cases cb)
  case (FlashOn x l fd)
  with playTileSound_cases[of e x "s\<lparr>activeTile := Some x\<rparr>"] show ?thesis
    by (auto simp: Let_def setTimeout_def)
qed (simp_all add: playSequence_def addToSequence_def Let_def)

lemma prefix_ok_fire_next:
  assumes "timers_inv s" and "prefix_ok s"
  shows "prefix_ok (fire_next e r s)"
proof (cases "earliest (timers s)")
  case None
  then show ?thesis using assms(2) by (simp add: fire_next_def)
next
  case (Some p)
  obtain t rest where p: "p = (t, rest)" by (cases p)
  define s1 where "s1 = s\<lparr>timers := rest, now := max (now s) (due t)\<rparr>"
  have fn: "fire_next e r s = fire e r (callback t) s1"
    using Some p by (simp add: fire_next_def s1_def)
  have tin: "t \<in> set (timers s)"
    using earliest_set[of "timers s" t rest] Some p by simp
  have pre: "take (length (userSequence s)) (sequence s) = userSequence s"
    using prefix_okD[OF assms(2)] tin by fastforce
  let ?s = "fire e r (callback t) s1"
  have "take (length (userSequence ?s)) (sequence ?s) = userSequence ?s"
  proof (cases "next_of (callback t) = None")
    case False
    then have "userSequence ?s = []" by (simp only: fire_input if_False)
    then show ?thesis by simp
  next
    case nn: True
    show ?thesis
    proof (cases "is_start (callback t)")
      case True
      from timers_invD(3)[OF assms(1) tin True] show ?thesis
        by (simp add: fire_input nn s1_def)
    next
      case False
      with fire_sequence[of "callback t" e r s1] nn
      have "sequence ?s = sequence s" by (simp add: s1_def)
      with pre show ?thesis by (simp add: fire_input nn s1_def)
    qed
  qed
  then show ?thesis unfolding fn by (simp add: prefix_ok_def)
qed

lemma prefix_ok_step:
  assumes "timers_inv s" and "prefix_ok s" and "returns e ev s"
  shows "prefix_ok (apply_event e ev s)"
proof (cases ev)
  case (Click i)
  show ?thesis using assms unfolding Click apply_event.simps by (rule prefix_ok_click)
next
  case Start
  show ?thesis unfolding Start apply_event.simps
    by (rule prefix_ok_empty) (simp add: startGame_fields)
next
  case Stop
  show ?thesis unfolding Stop apply_event.simps by (rule prefix_ok_stopGame[OF assms(2)])
next
  case Reset
  show ?thesis unfolding Reset apply_event.simps
    by (rule prefix_ok_empty) (simp add: resetGame_def cleanup_def)
next
  case (SetDifficulty d)
  show ?thesis unfolding SetDifficulty apply_event.simps
    by (rule prefix_ok_frame[OF assms(2)]) (simp_all add: setDifficulty_def)
next
  case (HighScoreFetched v)
  show ?thesis unfolding HighScoreFetched apply_event.simps
    by (rule prefix_ok_frame[OF assms(2)]) (simp_all add: fetchedHighScore_def)
next
  case (Elapse dt)
  show ?thesis unfolding Elapse apply_event.simps
    by (rule prefix_ok_frame[OF assms(2)]) simp_all
next
  case (Timeout r)
  show ?thesis unfolding Timeout apply_event.simps
    by (rule prefix_ok_fire_next[OF assms(1,2)])
qed

lemma returning_reachable: "reachable_returning s \<Longrightarrow> reachable s"
proof (induction rule: reachable_returning.induct)
  case start
  show ?case by (rule reachable.start)
next
  case (step s ev e)
  then show ?case by (intro reachable.step)
qed

lemma returning_prefix_ok: "reachable_returning s \<Longrightarrow> prefix_ok s"
proof (induction rule: reachable_returning.induct)
  case start
  show ?case by (rule prefix_ok_initial)
next
  case (step s ev e)
  from step.hyps(1) have "timers_inv s"
    by (intro reachable_timers_inv returning_reachable)
  from this step.IH step.hyps(3) show ?case by (rule prefix_ok_step)
qed

lemma run_returning_reachable:
  "reachable_returning s \<Longrightarrow> run_returning e evs s = Some s' \<Longrightarrow> reachable_returning s'"
proof (induction evs arbitrary: s)
  case Nil
  then show ?case by simp
next
  case (Cons ev evs)
  from Cons.prems(2) have en: "enabled ev s" "returns e ev s"
    and r: "run_returning e evs (apply_event e ev s) = Some s'"
    by (simp_all split: if_splits)
  from Cons.prems(1) en have "reachable_returning (apply_event e ev s)"
    by (rule reachable_returning.step)
  from Cons.IH[OF this r] show ?case .
qed

subsection \<open>The claims\<close>

text \<open>
  Claim C1. For every base multiplier of at least 1 and every sequence length of at least
  0, \<^verbatim>\<open>calculateMultiplier\<close> returns the base multiplier times the length multiplier of the
  specification's table; for a fixed base multiplier the result never decreases as the
  sequence grows, and it changes from one length to the next exactly when the next length is
  5, 10, 13, 16 or 20.
\<close>

theorem calculateMultiplier_table:
  assumes "1 \<le> base" and "0 \<le> n"
  shows "calculateMultiplier n base = base * spec_lengthMultiplier n
       \<and> (\<forall>m. n \<le> m \<longrightarrow> calculateMultiplier n base \<le> calculateMultiplier m base)
       \<and> (calculateMultiplier (n + 1) base \<noteq> calculateMultiplier n base
              \<longleftrightarrow> n + 1 \<in> {5, 10, 13, 16, 20})"
  using assms unfolding calculateMultiplier_def spec_lengthMultiplier_def Let_def
  by auto

theorem calculateMultiplier_table_witness:
  "(1::int) \<le> 3 \<and> (0::int) \<le> 12
   \<and> calculateMultiplier 12 3 = 9 \<and> calculateMultiplier 12 3 \<le> calculateMultiplier 13 3
   \<and> calculateMultiplier 13 3 \<noteq> calculateMultiplier 12 3"
  using calculateMultiplier_table [of 3 12]
  by (simp add: spec_lengthMultiplier_def calculateMultiplier_def)

text \<open>
  Claim C2. At a constant difficulty, after \<^verbatim>\<open>startGame\<close> and N consecutive successful
  rounds (N at least 1, the completed sequences having the lengths 1 to N), the score is the
  sum over L from 1 to N of the base multiplier times the length multiplier of L, and the
  session awaits input with the N drawn tiles as its sequence; one more successful round
  adds \<^verbatim>\<open>Math.round(1 * multiplier)\<close> to that score. The session may start from any state
  with no pending \<^verbatim>\<open>startGame\<close> timer.
\<close>

theorem rounds_score:
  assumes "\<forall>t\<in>set (timers s). tracked t" and "rs \<noteq> []" and "\<forall>r\<in>set rs. 0 \<le> r \<and> r < 9"
  shows "score (rounds e rs s) =
           (\<Sum>L = 1..length rs. baseMultiplier (getDifficultySettings (difficulty s))
                                  * spec_lengthMultiplier (int L))
       \<and> state (rounds e rs s) = WaitingForInput
       \<and> sequence (rounds e rs s) = rs
       \<and> difficulty (rounds e rs s) = difficulty s
       \<and> (\<forall>r. 0 \<le> r \<and> r < 9 \<longrightarrow>
             score (rounds e (rs @ [r]) s) =
               score (rounds e rs s)
               + Math_round (of_int (1 * calculateMultiplier (int (length rs) + 1)
                     (baseMultiplier (getDifficultySettings (difficulty s))))))"
proof -
  have aud: "\<forall>r\<in>set rs. audible e r" using assms(3) by (simp add: audible_def)
  note a = rounds_shape[OF assms(1) aud assms(2)]
  have "score (rounds e (rs @ [r]) s) =
               score (rounds e rs s)
               + Math_round (of_int (1 * calculateMultiplier (int (length rs) + 1)
                     (baseMultiplier (getDifficultySettings (difficulty s)))))"
    if "0 \<le> r \<and> r < 9" for r
  proof -
    have mr: "Math_round (of_int (1 * c)) = c" for c
      by (simp only: mult_1 Math_round_of_int)
    have "\<forall>x\<in>set (rs @ [r]). audible e x" using aud that by (simp add: audible_def)
    from rounds_shape[OF assms(1) this] a show ?thesis
      unfolding mr by (simp add: calculateMultiplier_spec add.commute)
  qed
  with a show ?thesis by blast
qed

theorem rounds_score_witness:
  "timers initial = [] \<and> score (rounds player [2, 7, 5, 0, 3] initial) = 6
   \<and> state (rounds player [2, 7, 5, 0, 3] initial) = WaitingForInput"
proof -
  have h: "\<forall>t\<in>set (timers initial). tracked t" "timers initial = []"
    and d: "baseMultiplier (getDifficultySettings (difficulty initial)) = 1"
    by (simp_all add: initial_def getDifficultySettings_def)
  from rounds_score [of initial "[2, 7, 5, 0, 3]" player, OF h(1)] h(2) show ?thesis
    unfolding d
    by (simp add: spec_lengthMultiplier_def eval_nat_numeral sum.atLeast_Suc_atMost)
qed

text \<open>
  Claim C3, as the code has it. In \<^verbatim>\<open>WaitingForInput\<close>, a tile index that differs from
  the sequence element at the current input position (or meets no element there) ends the
  session: the call returns, the state is \<^verbatim>\<open>GameOver\<close> and the score is unchanged. This
  holds for every index from 0 to 8, and for an index outside that range whenever no tone
  is played (sound effects off, or no audio context yet).
\<close>

theorem handleTileClick_mismatch:
  assumes "state s = WaitingForInput"
    and "index (sequence s) (int (length (userSequence s))) \<noteq> Some i"
    and "0 \<le> i \<and> i < 9 \<or> \<not> sfxEnabled e \<or> \<not> audioContext e"
  shows "\<exists>s'. handleTileClick e i s = Inr s' \<and> state s' = GameOver \<and> score s' = score s"
proof -
  have "audible e i" using assms(3) by (simp add: audible_def)
  then show ?thesis using assms(1,2)
    by (auto simp: handleTileClick_def playTileSound_ok Let_def handleGameOver_def cleanup_def
        setTimeout_def split: option.splits)
qed


theorem handleTileClick_mismatch_witness:
  "state first_round = WaitingForInput
   \<and> state (after (handleTileClick player 3 first_round)) = GameOver
   \<and> score (after (handleTileClick player 3 first_round)) = score first_round"
proof -
  have a: "state first_round = WaitingForInput"
    "index (sequence first_round) (int (length (userSequence first_round))) \<noteq> Some 3"
    by code_simp+
  from handleTileClick_mismatch [of first_round 3 player, OF a] show ?thesis
    using a(1) by (auto simp: after_def)
qed

theorem handleTileClick_out_of_range_throws:
  "state first_round = WaitingForInput
   \<and> index (sequence first_round) (int (length (userSequence first_round))) \<noteq> Some 9
   \<and> handleTileClick player 9 first_round =
       Inl (TypeError, first_round\<lparr>userSequence := [9], activeTile := Some 9\<rparr>)
   \<and> state (after (handleTileClick player 9 first_round)) = WaitingForInput"
  by code_simp

text \<open>
  Claim C4. In every state other than \<^verbatim>\<open>WaitingForInput\<close>, \<^verbatim>\<open>handleTileClick\<close> returns
  at once and leaves the whole session as it was: state, score, sequence, input, active
  tile, timers, requests and tones.
\<close>

theorem handleTileClick_ignored:
  "state s \<noteq> WaitingForInput \<Longrightarrow> handleTileClick e i s = Inr s"
  by (simp add: handleTileClick_def)


lemma first_reveal_state: "state first_reveal = ShowingSequence"
  by code_simp


theorem handleTileClick_ignored_witness:
  "state first_reveal = ShowingSequence \<and> handleTileClick player 2 first_reveal = Inr first_reveal"
  using handleTileClick_ignored [of first_reveal player 2] first_reveal_state by simp

text \<open>
  Claim C5, as the code has it. In every state that the session reaches while each call of
  \<^verbatim>\<open>handleTileClick\<close> returns (as it does for every index from 0 to 8, and for any index
  while no tone is played or no input is awaited), if the state is \<^verbatim>\<open>WaitingForInput\<close>
  then the input entered so far equals the sequence cut to the input's length; a state in
  which it does not is \<^verbatim>\<open>GameOver\<close>, entered by the submission that broke the equality.
\<close>

theorem prefix_invariant:
  assumes "reachable_returning s"
  shows "(state s = WaitingForInput \<longrightarrow>
            take (length (userSequence s)) (sequence s) = userSequence s)
       \<and> (take (length (userSequence s)) (sequence s) \<noteq> userSequence s \<longrightarrow>
            state s = GameOver)"
  using prefix_okD[OF returning_prefix_ok[OF assms]] by fastforce

lemma second_round_run: "run_returning player second_round_events initial = Some second_round"
  by code_simp

theorem prefix_invariant_witness:
  "reachable_returning second_round \<and> state second_round = WaitingForInput
   \<and> userSequence second_round = [2] \<and> sequence second_round = [2, 7]
   \<and> take (length (userSequence second_round)) (sequence second_round) = userSequence second_round"
proof -
  have r: "reachable_returning second_round"
    using run_returning_reachable[OF reachable_returning.start second_round_run] .
  have "state second_round = WaitingForInput" "userSequence second_round = [2]"
    "sequence second_round = [2, 7]"
    by code_simp+
  with prefix_invariant [OF r] r show ?thesis by simp
qed

lemma thrown_click_run: "run player thrown_click_events initial = Some thrown_click"
  by code_simp

lemma thrown_click_reachable: "reachable thrown_click"
  using run_reachable[OF reachable.start thrown_click_run] .

lemma thrown_click_facts:
  "state thrown_click = WaitingForInput" "sequence thrown_click = [2]"
  "userSequence thrown_click = [9]"
  by code_simp+

theorem thrown_click_breaks_prefix:
  "reachable thrown_click \<and> state thrown_click = WaitingForInput
   \<and> sequence thrown_click = [2] \<and> userSequence thrown_click = [9]
   \<and> take (length (userSequence thrown_click)) (sequence thrown_click)
       \<noteq> userSequence thrown_click"
  using thrown_click_reachable by (simp add: thrown_click_facts)

text \<open>
  Claim C6, as the code has it. Every transition into \<^verbatim>\<open>GameOver\<close>, by a wrong tile or
  by \<^verbatim>\<open>stopGame\<close> (also \<^verbatim>\<open>stopGame\<close> called when the session is over already), inserts
  for a signed-in user exactly one \<^verbatim>\<open>games\<close> row, with the
  current score and difficulty and with \<^verbatim>\<open>streak\<close> equal to the length of the sequence
  minus one, and inserts nothing for a user who is not signed in; a mismatch while the
  sequence is 2, 7, 5 records the streak 2.
\<close>

theorem GameOver_record:
  assumes "state s \<noteq> GameOver \<or> ev = Stop" and "state (apply_event e ev s) = GameOver"
  shows "games_rows (effects (apply_event e ev s)) =
           games_rows (effects s) @
           (if signed_in e = None then []
            else [(score s, difficulty s, int (length (sequence s)) - 1)])"
proof (cases ev)
  case (Click i)
  then have ns: "state s \<noteq> GameOver" using assms(1) by simp
  have w: "state s = WaitingForInput"
  proof (rule ccontr)
    assume "state s \<noteq> WaitingForInput"
    then have "apply_event e ev s = s" by (simp add: Click click_ignored)
    with ns assms(2) show False by simp
  qed
  have aud: "audible e i"
  proof (rule ccontr)
    assume "\<not> audible e i"
    from click_throws[OF w this] have "state (apply_event e ev s) = WaitingForInput"
      by (simp add: Click after_def w)
    with assms(2) show False by simp
  qed
  have miss: "index (sequence s) (int (length (userSequence s))) \<noteq> Some i"
    using assms(2) click_fields(4)[OF w aud] by (auto simp: Click split: if_splits)
  show ?thesis
    using miss by (simp add: Click click_effects[OF w aud] games_rows_append tone_rows
        split: option.splits)
next
  case Start
  with assms(2) show ?thesis by (simp add: startGame_def setTimeout_def cleanup_def)
next
  case Stop
  show ?thesis
    by (simp add: Stop stopGame_def handleGameOver_def cleanup_def Let_def games_rows_append
        split: option.splits)
next
  case Reset
  with assms(2) show ?thesis by (simp add: resetGame_def cleanup_def)
next
  case (SetDifficulty d)
  with assms show ?thesis by (simp add: setDifficulty_def)
next
  case (HighScoreFetched v)
  with assms show ?thesis by (simp add: fetchedHighScore_def)
next
  case (Elapse dt)
  with assms show ?thesis by simp
next
  case (Timeout r)
  then have "state s \<noteq> GameOver" using assms(1) by simp
  from fire_next_state[OF this, of e r] assms(2) Timeout show ?thesis by simp
qed

lemma third_round_eq:
  "third_round =
     \<lparr>state = WaitingForInput, sequence = [2, 7, 5], userSequence = [2, 7], score = 2,
      highScore = 2, activeTile = Some 7, difficulty = easy, multiplier = 1,
      timers =
        [\<lparr>due = 6100, tracked = True, callback = InputFlashOff\<rparr>,
         \<lparr>due = 6100, tracked = True, callback = InputFlashOff\<rparr>],
      now = 5700,
      effects =
        [Tone (32963 / 100), Tone (32963 / 100), HighScoresUpsert ''ada'' 1 easy,
         Tone (32963 / 100), Tone (52325 / 100), Tone (32963 / 100), Tone (52325 / 100),
         HighScoresUpsert ''ada'' 2 easy, Tone (32963 / 100), Tone (52325 / 100), Tone 440,
         Tone (32963 / 100), Tone (52325 / 100)]\<rparr>"
  by code_simp

lemma third_round_facts:
  "state third_round = WaitingForInput" "sequence third_round = [2, 7, 5]"
  "userSequence third_round = [2, 7]" "score third_round = 2" "difficulty third_round = easy"
  "games_rows (effects third_round) = []"
  by (simp_all add: third_round_eq)

lemma third_round_miss: "state (apply_event player (Click 8) third_round) = GameOver"
  unfolding third_round_eq by code_simp

theorem GameOver_record_witness:
  "state third_round \<noteq> GameOver \<and> sequence third_round = [2, 7, 5]
   \<and> state (apply_event player (Click 8) third_round) = GameOver
   \<and> games_rows (effects (apply_event player (Click 8) third_round)) = [(2, easy, 2)]"
proof -
  have "signed_in player \<noteq> None" by (simp add: signed_in_def player_def)
  with GameOver_record [of third_round "Click 8" player] third_round_facts third_round_miss
  show ?thesis by simp
qed

theorem mismatch_record_streak:
  "state third_round = WaitingForInput \<and> sequence third_round = [2, 7, 5]
   \<and> int (length (sequence third_round)) = 3
   \<and> userSequence third_round = [2, 7]
   \<and> handleTileClick player 8 third_round = Inr (after (handleTileClick player 8 third_round))
   \<and> state (after (handleTileClick player 8 third_round)) = GameOver
   \<and> games_rows (effects (after (handleTileClick player 8 third_round))) = [(2, easy, 2)]
   \<and> games_rows (effects (stopGame player third_round)) = [(2, easy, 2)]"
  unfolding third_round_eq by code_simp

text \<open>
  Claim C7, as the code has it. \<^verbatim>\<open>setDifficulty\<close> is the bare state setter: in every
  state it replaces the difficulty and changes nothing else. The restriction to \<^verbatim>\<open>Idle\<close>
  is in the difficulty buttons, which are disabled in every other state, so that a press on
  one of them outside \<^verbatim>\<open>Idle\<close> changes nothing.
\<close>

theorem setDifficulty_unguarded:
  "setDifficulty d s = s\<lparr>difficulty := d\<rparr>
   \<and> (state s \<noteq> Idle \<longrightarrow> DifficultySelector_click d s = s)"
  by (simp add: setDifficulty_def DifficultySelector_click_def)

theorem setDifficulty_unguarded_witness:
  "state first_round \<noteq> Idle \<and> DifficultySelector_click hard first_round = first_round
   \<and> difficulty (setDifficulty hard first_round) = hard"
proof -
  have "state first_round \<noteq> Idle" by code_simp
  with setDifficulty_unguarded [of hard first_round] show ?thesis by simp
qed

theorem setDifficulty_while_playing:
  "state first_round = WaitingForInput \<and> difficulty first_round = easy
   \<and> difficulty (setDifficulty hard first_round) = hard
   \<and> setDifficulty hard first_round \<noteq> first_round"
  by code_simp









text \<open>
  Claim C9, as the code has it. For a signed-in user a \<^verbatim>\<open>high_scores\<close> upsert carrying
  the new score is issued exactly when a tile click completes a round and raises the score
  strictly above the known high score; no other event issues one, and for a user who is
  not signed in none is ever issued.
\<close>

theorem high_score_write:
  assumes "returns e ev s"
  shows "upserts (effects (apply_event e ev s)) =
           upserts (effects s) @
           (case ev of
              Click i \<Rightarrow>
                (let newScore = score s + calculateMultiplier (int (length (sequence s)))
                                  (baseMultiplier (getDifficultySettings (difficulty s)))
                 in if state s = WaitingForInput
                       \<and> index (sequence s) (int (length (userSequence s))) = Some i
                       \<and> length (userSequence s) + 1 = length (sequence s)
                       \<and> highScore s < newScore
                       \<and> signed_in e \<noteq> None
                    then [(newScore, difficulty s)] else [])
            | _ \<Rightarrow> [])"
proof (cases ev)
  case (Click i)
  show ?thesis
  proof (cases "state s = WaitingForInput")
    case False
    then show ?thesis by (simp add: Click handleTileClick_def after_def Let_def)
  next
    case True
    have aud: "audible e i" using assms True unfolding Click by (rule returns_audible)
    show ?thesis
      by (simp add: Click click_effects[OF True aud] upserts_append tone_rows True Let_def
          split: option.splits)
  qed
next
  case Start
  show ?thesis by (simp add: Start startGame_def setTimeout_def cleanup_def)
next
  case Stop
  show ?thesis
    by (simp add: Stop stopGame_def handleGameOver_def cleanup_def Let_def upserts_append
        split: option.splits)
next
  case Reset
  show ?thesis by (simp add: Reset resetGame_def cleanup_def)
next
  case (SetDifficulty d)
  show ?thesis by (simp add: SetDifficulty setDifficulty_def)
next
  case (HighScoreFetched v)
  show ?thesis by (simp add: HighScoreFetched fetchedHighScore_def)
next
  case (Elapse dt)
  show ?thesis by (simp add: Elapse)
next
  case (Timeout r)
  show ?thesis by (simp add: Timeout fire_next_effects)
qed

lemma hard_fourth_facts:
  "state hard_fourth = WaitingForInput" "difficulty hard_fourth = hard"
  "score hard_fourth = 9" "highScore hard_fourth = 10"
  "sequence hard_fourth = [2, 7, 5, 0]" "userSequence hard_fourth = [2, 7, 5]"
  "upserts (effects hard_fourth) = []"
  by (simp_all add: hard_fourth_def)

lemma hard_fourth_hit: "score (apply_event player (Click 0) hard_fourth) = 12"
  by code_simp

lemma hard_fourth_returns: "returns player (Click 0) hard_fourth"
  by code_simp

theorem high_score_write_witness:
  "returns player (Click 0) hard_fourth \<and> highScore hard_fourth = 10 \<and> score hard_fourth = 9
   \<and> upserts (effects hard_fourth) = []
   \<and> upserts (effects (apply_event player (Click 0) hard_fourth)) = [(12, hard)]
   \<and> score (apply_event player (Click 0) hard_fourth) = 12"
proof -
  have "signed_in player \<noteq> None" by (simp add: signed_in_def player_def)
  moreover note hard_fourth_hit hard_fourth_returns
  ultimately show ?thesis
    using high_score_write [of player "Click 0" hard_fourth] hard_fourth_facts
    by (simp add: index_def calculateMultiplier_def getDifficultySettings_def)
qed

theorem guest_high_score_not_written:
  "state guest_round = WaitingForInput \<and> highScore guest_round = 0 \<and> score guest_round = 0
   \<and> handleTileClick guest 2 guest_round = Inr (after (handleTileClick guest 2 guest_round))
   \<and> score (after (handleTileClick guest 2 guest_round)) = 1
   \<and> highScore (after (handleTileClick guest 2 guest_round)) = 1
   \<and> upserts (effects (after (handleTileClick guest 2 guest_round))) = []"
  by code_simp

text \<open>
  Claim C10. \<^verbatim>\<open>stopGame\<close> has no precondition on the state: from every state it leads to
  \<^verbatim>\<open>GameOver\<close> and, for a signed-in user, inserts one \<^verbatim>\<open>games\<close> row with the current
  score and with \<^verbatim>\<open>streak\<close> equal to the length of the sequence minus one. From a
  reachable \<^verbatim>\<open>Idle\<close> state the row has score 0 and streak -1, and a second
  \<^verbatim>\<open>stopGame\<close> inserts the same row again.
\<close>

theorem stopGame_any_state:
  "state (stopGame e s) = GameOver
   \<and> effects (stopGame e s) = effects s @
        (case signed_in e of
           None \<Rightarrow> []
         | Some uid \<Rightarrow>
             [GamesInsert uid (score s) (difficulty s)
                (if currentTheme_id e = ''default''
                 then ''00000000-0000-0000-0000-000000000000'' else currentTheme_id e)
                (int (length (sequence s)) - 1)])
   \<and> (reachable s \<and> state s = Idle \<longrightarrow> score s = 0 \<and> int (length (sequence s)) - 1 = - 1)
   \<and> games_rows (effects (stopGame e (stopGame e s))) = games_rows (effects s) @
        (if signed_in e = None then []
         else [(score s, difficulty s, int (length (sequence s)) - 1),
               (score s, difficulty s, int (length (sequence s)) - 1)])"
proof -
  have idle: "score s = 0 \<and> int (length (sequence s)) - 1 = - 1"
    if "reachable s" "state s = Idle"
    using timers_invD(4)[OF reachable_timers_inv[OF that(1)] that(2)] by simp
  have app: "games_rows (xs @ ys) = games_rows xs @ games_rows ys" for xs ys
    by (induction xs rule: games_rows.induct) simp_all
  have "state (stopGame e s) = GameOver"
    by (simp add: stopGame_def handleGameOver_def Let_def split: option.splits)
  moreover have "effects (stopGame e s) = effects s @
        (case signed_in e of
           None \<Rightarrow> []
         | Some uid \<Rightarrow>
             [GamesInsert uid (score s) (difficulty s)
                (if currentTheme_id e = ''default''
                 then ''00000000-0000-0000-0000-000000000000'' else currentTheme_id e)
                (int (length (sequence s)) - 1)])"
    by (simp add: stopGame_def handleGameOver_def cleanup_def Let_def split: option.splits)
  moreover have "games_rows (effects (stopGame e (stopGame e s))) = games_rows (effects s) @
        (if signed_in e = None then []
         else [(score s, difficulty s, int (length (sequence s)) - 1),
               (score s, difficulty s, int (length (sequence s)) - 1)])"
    by (auto simp: stopGame_def handleGameOver_def cleanup_def Let_def app split: option.splits)
  ultimately show ?thesis using idle by blast
qed

theorem stopGame_any_state_witness:
  "reachable initial \<and> state initial = Idle
   \<and> effects (stopGame player initial)
       = [GamesInsert ''ada'' 0 easy ''00000000-0000-0000-0000-000000000000'' (- 1)]
   \<and> games_rows (effects (stopGame player (stopGame player initial)))
       = [(0, easy, - 1), (0, easy, - 1)]"
proof -
  have "state initial = Idle" "effects initial = []" "difficulty initial = easy"
    "signed_in player = Some ''ada''" "currentTheme_id player = ''default''"
    by (simp_all add: initial_def signed_in_def player_def)
  with stopGame_any_state [of player initial] reachable.start show ?thesis
    by simp
qed

end
